theory Spec2Isabelle
  imports Complex_Main "HOL-Library.Word"
begin

section \<open>Exceptions\<close>

text \<open>
  The notebook \<^verbatim>\<open>examples/ssd_example.ipynb\<close> is a Python 2 script (its kernel is
  \<^verbatim>\<open>python2\<close>). A call that raises is modelled by a result \<open>Inl e\<close>; a call that returns
  \<open>v\<close> by \<open>Inr v\<close>.
\<close>

datatype exn =
    ValueError
  | KeyError
  | NameError
  | OSError
  | IOError
  | BadZipfile
  | DecodeError
  | ConversionError
  | RuntimeError

definition and_then :: "exn + 'a \<Rightarrow> ('a \<Rightarrow> exn + 'b) \<Rightarrow> exn + 'b" where
  "and_then m f = (case m of Inl e \<Rightarrow> Inl e | Inr v \<Rightarrow> f v)"

section \<open>Strings: \<^verbatim>\<open>str.replace\<close>\<close>

text \<open>
  Python's \<^verbatim>\<open>s.replace(old, new)\<close>: every non-overlapping occurrence of \<open>old\<close>,
  scanning from the left, is replaced by \<open>new\<close>. For the empty pattern Python inserts
  \<open>new\<close> before every character and at the end.
\<close>

fun str_replace :: "string \<Rightarrow> string \<Rightarrow> string \<Rightarrow> string" where
  "str_replace old new [] = (if old = [] then new else [])"
| "str_replace old new (c # cs) =
     (if old = [] then new @ c # str_replace old new cs
      else if take (length old) (c # cs) = old
        then new @ str_replace old new (drop (length old) (c # cs))
      else c # str_replace old new cs)"

text \<open>
  \<^verbatim>\<open>coreml_input_name = tf_input_name.replace(':', '__').replace('/', '__')\<close>, and the
  same expression inside the list comprehension for the output names.
\<close>

definition coreml_name :: "string \<Rightarrow> string" where
  "coreml_name tf_name = str_replace ''/'' ''__'' (str_replace '':'' ''__'' tf_name)"

definition tf_input_name :: string where
  "tf_input_name = ''Preprocessor/sub:0''"

definition tf_output_names :: "string list" where
  "tf_output_names = [''concat:0'', ''concat_1:0'']"

definition coreml_input_name :: string where
  "coreml_input_name = coreml_name tf_input_name"

definition coreml_output_names :: "string list" where
  "coreml_output_names = map coreml_name tf_output_names"

section \<open>Element types\<close>

text \<open>
  \<^verbatim>\<open>max_relative_error\<close> accepts arrays of any numeric dtype, and what its four lines
  compute depends on the dtype: subtraction and \<^verbatim>\<open>abs\<close> wrap around in fixed-width
  integers, \<^verbatim>\<open>/\<close> is floor division on integer arrays under Python 2 (the notebook's
  kernel is Python 2.7, it calls \<^verbatim>\<open>urllib.urlretrieve\<close>, and it has no
  \<^verbatim>\<open>from __future__ import division\<close>), and floating-point arithmetic has \<open>inf\<close> and
  \<open>nan\<close>. A dtype is therefore modelled by the operations numpy applies to its
  elements: the four ufuncs the function uses, the Python integer \<open>1\<close> converted to the
  dtype, and the comparison \<^verbatim>\<open><=\<close>. The last two fields say what the elements mean:
  \<^verbatim>\<open>np.isfinite\<close>, and the number a finite element stands for.

  numpy first converts the two operands of a binary ufunc to a common dtype; for the
  arrays the notebook compares (float32 against float64) and between integer widths of
  one signedness this conversion keeps every value. The model starts after it: both
  arrays have the same dtype.
\<close>

record 'a dtype =
  dt_subtract :: "'a \<Rightarrow> 'a \<Rightarrow> 'a"
  dt_absolute :: "'a \<Rightarrow> 'a"
  dt_divide :: "'a \<Rightarrow> 'a \<Rightarrow> 'a"
  dt_maximum :: "'a \<Rightarrow> 'a \<Rightarrow> 'a"
  dt_one :: 'a
  dt_le :: "'a \<Rightarrow> 'a \<Rightarrow> bool"
  dt_isfinite :: "'a \<Rightarrow> bool"
  dt_value :: "'a \<Rightarrow> rat"

text \<open>
  Unsigned integers of any width (\<^verbatim>\<open>uint8\<close> is \<open>8 word\<close>): subtraction wraps around,
  \<^verbatim>\<open>abs\<close> is the identity, division is floor division and yields 0 for a zero
  divisor (numpy warns and stores 0).
\<close>

definition unsigned_int :: "'a::len word dtype" where
  "unsigned_int =
     \<lparr>dt_subtract = (\<lambda>a b. a - b),
      dt_absolute = (\<lambda>a. a),
      dt_divide = (\<lambda>a b. a div b),
      dt_maximum = (\<lambda>a b. if a \<le> b then b else a),
      dt_one = 1,
      dt_le = (\<lambda>a b. a \<le> b),
      dt_isfinite = (\<lambda>a. True),
      dt_value = (\<lambda>a. of_nat (unat a))\<rparr>"

text \<open>
  Signed integers of any width in two's complement (\<^verbatim>\<open>int8\<close> is \<open>8 word\<close> read by
  \<open>sint\<close>): subtraction wraps around, \<^verbatim>\<open>abs\<close> negates a negative element and so
  leaves the least element as it is (\<^verbatim>\<open>np.abs(np.int8(-128))\<close> is \<open>-128\<close>), division
  is floor division and yields 0 for a zero divisor and for the least element divided by
  \<open>-1\<close>.
\<close>

definition signed_int :: "'a::len word dtype" where
  "signed_int =
     \<lparr>dt_subtract = (\<lambda>a b. a - b),
      dt_absolute = (\<lambda>a. if sint a < 0 then - a else a),
      dt_divide = (\<lambda>a b. if sint b = 0 \<or> (sint b = - 1 \<and> sint a = - (2 ^ (LENGTH('a) - 1)))
                           then 0 else word_of_int (sint a div sint b)),
      dt_maximum = (\<lambda>a b. if sint a \<le> sint b then b else a),
      dt_one = 1,
      dt_le = (\<lambda>a b. sint a \<le> sint b),
      dt_isfinite = (\<lambda>a. True),
      dt_value = (\<lambda>a. of_int (sint a))\<rparr>"

text \<open>
  Floating-point numbers: a finite number, \<open>inf\<close>, \<open>-inf\<close> or \<open>nan\<close>. Rounding is not
  modelled: a finite element is the rational number it stands for, and an operation on
  finite elements whose exact result is a number returns that number. The two zeros of
  IEEE arithmetic are one element. The operations follow IEEE 754 on \<open>inf\<close> and \<open>nan\<close>;
  \<^verbatim>\<open>np.maximum\<close> returns \<open>nan\<close> when an operand is \<open>nan\<close>, and every comparison with
  \<open>nan\<close> is false.
\<close>

datatype fp = Finite rat | PosInf | NegInf | NaN

fun fp_subtract :: "fp \<Rightarrow> fp \<Rightarrow> fp" where
  "fp_subtract NaN b = NaN"
| "fp_subtract a NaN = NaN"
| "fp_subtract (Finite a) (Finite b) = Finite (a - b)"
| "fp_subtract PosInf PosInf = NaN"
| "fp_subtract NegInf NegInf = NaN"
| "fp_subtract PosInf b = PosInf"
| "fp_subtract NegInf b = NegInf"
| "fp_subtract (Finite a) PosInf = NegInf"
| "fp_subtract (Finite a) NegInf = PosInf"

fun fp_absolute :: "fp \<Rightarrow> fp" where
  "fp_absolute (Finite a) = Finite \<bar>a\<bar>"
| "fp_absolute PosInf = PosInf"
| "fp_absolute NegInf = PosInf"
| "fp_absolute NaN = NaN"

fun fp_divide :: "fp \<Rightarrow> fp \<Rightarrow> fp" where
  "fp_divide NaN b = NaN"
| "fp_divide a NaN = NaN"
| "fp_divide (Finite a) (Finite b) =
     (if b = 0 then (if a = 0 then NaN else if 0 < a then PosInf else NegInf)
      else Finite (a / b))"
| "fp_divide (Finite a) b = Finite 0"
| "fp_divide PosInf (Finite b) = (if b < 0 then NegInf else PosInf)"
| "fp_divide NegInf (Finite b) = (if b < 0 then PosInf else NegInf)"
| "fp_divide a b = NaN"

fun fp_le :: "fp \<Rightarrow> fp \<Rightarrow> bool" where
  "fp_le NaN b = False"
| "fp_le a NaN = False"
| "fp_le NegInf b = True"
| "fp_le a PosInf = True"
| "fp_le (Finite a) (Finite b) = (a \<le> b)"
| "fp_le a b = False"

fun fp_maximum :: "fp \<Rightarrow> fp \<Rightarrow> fp" where
  "fp_maximum NaN b = NaN"
| "fp_maximum a NaN = NaN"
| "fp_maximum a b = (if fp_le a b then b else a)"

fun fp_isfinite :: "fp \<Rightarrow> bool" where
  "fp_isfinite (Finite a) = True"
| "fp_isfinite a = False"

fun fp_value :: "fp \<Rightarrow> rat" where
  "fp_value (Finite a) = a"
| "fp_value a = 0"

definition floating :: "fp dtype" where
  "floating =
     \<lparr>dt_subtract = fp_subtract,
      dt_absolute = fp_absolute,
      dt_divide = fp_divide,
      dt_maximum = fp_maximum,
      dt_one = Finite 1,
      dt_le = fp_le,
      dt_isfinite = fp_isfinite,
      dt_value = fp_value\<rparr>"

text \<open>
  What the properties below need of a dtype, and what every numpy dtype provides (also
  with rounding): \<open>1\<close> is the number 1; on numbers (elements \<open>a\<close> with \<open>a <= a\<close>, that is,
  all but \<open>nan\<close>) \<^verbatim>\<open>np.maximum\<close> returns the greater operand and \<^verbatim>\<open><=\<close> is total;
  \<^verbatim>\<open><=\<close> is transitive; \<^verbatim>\<open>np.maximum\<close> returns a number only for two numbers; on
  finite elements \<^verbatim>\<open><=\<close> compares the values; dividing by the element 1 changes
  nothing; a finite element divided by a finite element of value at least 1 is finite, is
  not negative when the dividend is not, and is zero when the dividend is; a finite
  element minus itself has absolute value zero.
\<close>

definition faithful :: "'a dtype \<Rightarrow> bool" where
  "faithful dt =
     (dt_isfinite dt (dt_one dt) \<and> dt_value dt (dt_one dt) = 1
      \<and> (\<forall>a b. dt_le dt a a \<and> dt_le dt b b \<longrightarrow>
             dt_maximum dt a b = (if dt_le dt a b then b else a)
             \<and> (dt_le dt a b \<or> dt_le dt b a))
      \<and> (\<forall>a b c. dt_le dt a b \<and> dt_le dt b c \<longrightarrow> dt_le dt a c)
      \<and> (\<forall>a b. dt_le dt (dt_maximum dt a b) (dt_maximum dt a b) \<longrightarrow>
             dt_le dt a a \<and> dt_le dt b b)
      \<and> (\<forall>a. dt_isfinite dt a \<longrightarrow> dt_le dt a a)
      \<and> (\<forall>a b. dt_isfinite dt a \<and> dt_isfinite dt b \<longrightarrow>
             (dt_le dt a b \<longleftrightarrow> dt_value dt a \<le> dt_value dt b))
      \<and> (\<forall>n. dt_divide dt n (dt_one dt) = n)
      \<and> (\<forall>n d. dt_isfinite dt n \<and> dt_isfinite dt d \<and> 1 \<le> dt_value dt d \<longrightarrow>
             dt_isfinite dt (dt_divide dt n d)
             \<and> (0 \<le> dt_value dt n \<longrightarrow> 0 \<le> dt_value dt (dt_divide dt n d))
             \<and> (dt_value dt n = 0 \<longrightarrow> dt_value dt (dt_divide dt n d) = 0))
      \<and> (\<forall>a. dt_isfinite dt a \<longrightarrow>
             dt_isfinite dt (dt_absolute dt (dt_subtract dt a a))
             \<and> dt_value dt (dt_absolute dt (dt_subtract dt a a)) = 0))"

text \<open>
  The absolute difference of two finite elements is a finite element that is not negative
  (no overflow of \<^verbatim>\<open>abs\<close> at the least signed integer, no \<open>inf\<close> or \<open>nan\<close>).
\<close>

definition sound_difference :: "'a dtype \<Rightarrow> 'a \<Rightarrow> 'a \<Rightarrow> bool" where
  "sound_difference dt a b =
     (dt_isfinite dt a \<and> dt_isfinite dt b
      \<and> dt_isfinite dt (dt_absolute dt (dt_subtract dt a b))
      \<and> 0 \<le> dt_value dt (dt_absolute dt (dt_subtract dt a b)))"

text \<open>
  The difference of two elements and its absolute value are exact: finite, and the
  absolute value is that of the difference of the two numbers (no wrap-around, no
  overflow, no rounding, no \<open>inf\<close> or \<open>nan\<close>).
\<close>

definition exact_difference :: "'a dtype \<Rightarrow> 'a \<Rightarrow> 'a \<Rightarrow> bool" where
  "exact_difference dt a b =
     (dt_isfinite dt a \<and> dt_isfinite dt b
      \<and> dt_isfinite dt (dt_absolute dt (dt_subtract dt a b))
      \<and> dt_value dt (dt_absolute dt (dt_subtract dt a b)) = \<bar>dt_value dt a - dt_value dt b\<bar>)"

section \<open>Arrays\<close>

text \<open>
  A numpy array is its shape and its elements in row-major order; it always has as many
  elements as its shape says (\<open>well_formed\<close>). What the elements are and how numpy
  computes with them is the array's dtype.
\<close>

record 'a ndarray =
  shape :: "nat list"
  data :: "'a list"

definition well_formed :: "'a ndarray \<Rightarrow> bool" where
  "well_formed a = (length (data a) = prod_list (shape a))"

definition scalar :: "'a \<Rightarrow> 'a ndarray" where
  "scalar c = \<lparr>shape = [], data = [c]\<rparr>"

text \<open>
  Broadcasting of two shapes, on the reversed shapes (numpy aligns the trailing axes):
  two lengths are compatible when they are equal or one of them is 1; a missing axis
  counts as 1. Incompatible shapes raise \<^verbatim>\<open>ValueError\<close>.
\<close>

fun broadcast_rev :: "nat list \<Rightarrow> nat list \<Rightarrow> exn + nat list" where
  "broadcast_rev [] ys = Inr ys"
| "broadcast_rev (x # xs) [] = Inr (x # xs)"
| "broadcast_rev (x # xs) (y # ys) =
     (if x = y \<or> y = 1 then and_then (broadcast_rev xs ys) (\<lambda>r. Inr (x # r))
      else if x = 1 then and_then (broadcast_rev xs ys) (\<lambda>r. Inr (y # r))
      else Inl ValueError)"

definition broadcast_shapes :: "nat list \<Rightarrow> nat list \<Rightarrow> exn + nat list" where
  "broadcast_shapes s t = and_then (broadcast_rev (rev s) (rev t)) (\<lambda>r. Inr (rev r))"

text \<open>
  The elements of an array of shape \<open>d # ds\<close> stretched to the shape \<open>t # ts\<close> of the
  same rank: each of the \<open>d\<close> blocks is stretched, and when \<open>d \<noteq> t\<close> (so \<open>d = 1\<close>) the
  single block is repeated \<open>t\<close> times.
\<close>

fun stretch :: "nat list \<Rightarrow> nat list \<Rightarrow> 'a list \<Rightarrow> 'a list" where
  "stretch (d # ds) (t # ts) xs =
     (let n = prod_list ds;
          blocks = map (\<lambda>i. stretch ds ts (take n (drop (i * n) xs))) [0..<d]
      in if d = t then concat blocks else concat (replicate t (concat blocks)))"
| "stretch ds ts xs = xs"

definition broadcast_to :: "nat list \<Rightarrow> 'a ndarray \<Rightarrow> 'a list" where
  "broadcast_to t a = stretch (replicate (length t - length (shape a)) 1 @ shape a) t (data a)"

text \<open>A binary ufunc: broadcast both operands to the common shape, then apply pointwise.\<close>

definition ufunc2 :: "('a \<Rightarrow> 'b \<Rightarrow> 'c) \<Rightarrow> 'a ndarray \<Rightarrow> 'b ndarray \<Rightarrow> exn + 'c ndarray" where
  "ufunc2 f a b =
     and_then (broadcast_shapes (shape a) (shape b))
       (\<lambda>s. Inr \<lparr>shape = s, data = map2 f (broadcast_to s a) (broadcast_to s b)\<rparr>)"

text \<open>
  The ufuncs of \<^verbatim>\<open>max_relative_error\<close>, each with the element operation of the dtype:
  \<^verbatim>\<open>np.maximum\<close>, \<^verbatim>\<open>-\<close>, \<^verbatim>\<open>np.abs\<close> and \<^verbatim>\<open>/\<close>. None of them raises on an
  element; only shapes that do not broadcast raise.
\<close>

definition np_maximum :: "'a dtype \<Rightarrow> 'a ndarray \<Rightarrow> 'a ndarray \<Rightarrow> exn + 'a ndarray" where
  "np_maximum dt = ufunc2 (dt_maximum dt)"

definition np_subtract :: "'a dtype \<Rightarrow> 'a ndarray \<Rightarrow> 'a ndarray \<Rightarrow> exn + 'a ndarray" where
  "np_subtract dt = ufunc2 (dt_subtract dt)"

definition np_abs :: "'a dtype \<Rightarrow> 'a ndarray \<Rightarrow> 'a ndarray" where
  "np_abs dt a = \<lparr>shape = shape a, data = map (dt_absolute dt) (data a)\<rparr>"

definition np_divide :: "'a dtype \<Rightarrow> 'a ndarray \<Rightarrow> 'a ndarray \<Rightarrow> exn + 'a ndarray" where
  "np_divide dt = ufunc2 (dt_divide dt)"

text \<open>
  \<^verbatim>\<open>np.max(a)\<close> with no axis is \<^verbatim>\<open>np.maximum.reduce\<close> over all elements: it starts
  with the first element and combines it with each next one by \<^verbatim>\<open>np.maximum\<close>; a
  zero-size array raises \<^verbatim>\<open>ValueError\<close> (the reduction has no identity).
\<close>

definition np_max :: "'a dtype \<Rightarrow> 'a ndarray \<Rightarrow> exn + 'a" where
  "np_max dt a =
     (case data a of
        [] \<Rightarrow> Inl ValueError
      | v # vs \<Rightarrow> Inr (fold (\<lambda>u acc. dt_maximum dt acc u) vs v))"

subsection \<open>\<^verbatim>\<open>max_relative_error\<close>\<close>

text \<open>
  \<^verbatim>\<open>
  def max_relative_error(x,y):
      den = np.maximum(x,y)
      den = np.maximum(den,1)
      rel_err = (np.abs(x-y))/den
      return np.max(rel_err)
  \<close>
  The Python integer \<open>1\<close> is a zero-dimensional array of the dtype of \<open>den\<close>.
\<close>

definition max_relative_error :: "'a dtype \<Rightarrow> 'a ndarray \<Rightarrow> 'a ndarray \<Rightarrow> exn + 'a" where
  "max_relative_error dt x y =
     and_then (np_maximum dt x y) (\<lambda>den.
     and_then (np_maximum dt den (scalar (dt_one dt))) (\<lambda>den.
     and_then (np_subtract dt x y) (\<lambda>d.
     and_then (np_divide dt (np_abs dt d) den) (\<lambda>rel_err.
     np_max dt rel_err))))"

text \<open>
  What the four lines compute for one pair of elements, in the arithmetic of the dtype:
  \<^verbatim>\<open>abs(a-b) / maximum(maximum(a,b), 1)\<close>.
\<close>

definition pointwise_error :: "'a dtype \<Rightarrow> 'a \<Rightarrow> 'a \<Rightarrow> 'a" where
  "pointwise_error dt a b =
     dt_divide dt (dt_absolute dt (dt_subtract dt a b))
       (dt_maximum dt (dt_maximum dt a b) (dt_one dt))"

text \<open>
  The specification's formula for one pair of numbers, \<open>|a-b| / max(max(a,b), 1)\<close>,
  against which the array code above is compared.
\<close>

definition rel_err :: "rat \<Rightarrow> rat \<Rightarrow> rat" where
  "rel_err a b = \<bar>a - b\<bar> / max (max a b) 1"

text \<open>
  The dtype computes the formula exactly for the pair \<open>(a, b)\<close>: both elements are
  finite, and so is the pointwise result, which is the number the formula gives.
\<close>

definition exact_at :: "'a dtype \<Rightarrow> 'a \<Rightarrow> 'a \<Rightarrow> bool" where
  "exact_at dt a b =
     (dt_isfinite dt a \<and> dt_isfinite dt b \<and> dt_isfinite dt (pointwise_error dt a b)
      \<and> dt_value dt (pointwise_error dt a b) = rel_err (dt_value dt a) (dt_value dt b))"

subsection \<open>Squeezing and transposing\<close>

text \<open>\<^verbatim>\<open>a.squeeze()\<close>: the axes of length 1 are removed; the elements stay as they are.\<close>

definition squeeze :: "'a ndarray \<Rightarrow> 'a ndarray" where
  "squeeze a = \<lparr>shape = filter (\<lambda>d. d \<noteq> 1) (shape a), data = data a\<rparr>"

text \<open>
  \<^verbatim>\<open>np.transpose(a, (1,0))\<close>: the axes tuple must name every axis of \<open>a\<close>, so an array
  that does not have exactly two axes raises \<^verbatim>\<open>ValueError\<close> (axes don't match array).
  For shape \<open>(m, n)\<close> the result has shape \<open>(n, m)\<close> and its element \<open>(j, i)\<close> is the
  element \<open>(i, j)\<close> of \<open>a\<close>.
\<close>

definition np_transpose_1_0 :: "'a ndarray \<Rightarrow> exn + 'a ndarray" where
  "np_transpose_1_0 a =
     (case shape a of
        [m, n] \<Rightarrow>
          Inr \<lparr>shape = [n, m],
               data = concat (map (\<lambda>j. map (\<lambda>i. data a ! (i * n + j)) [0..<m]) [0..<n])\<rparr>
      | _ \<Rightarrow> Inl ValueError)"

text \<open>
  \<^verbatim>\<open>
  rel_error_box = max_relative_error(coreml_box_encodings.squeeze(),
          np.transpose(tf_box_encodings.squeeze(),(1,0)))
  rel_error_score = max_relative_error(coreml_scores.squeeze(),
          np.transpose(tf_scores.squeeze(),(1,0)))
  \<close>
\<close>

definition rel_error_box :: "'a dtype \<Rightarrow> 'a ndarray \<Rightarrow> 'a ndarray \<Rightarrow> exn + 'a" where
  "rel_error_box dt coreml_box_encodings tf_box_encodings =
     and_then (np_transpose_1_0 (squeeze tf_box_encodings))
       (\<lambda>t. max_relative_error dt (squeeze coreml_box_encodings) t)"

definition rel_error_score :: "'a dtype \<Rightarrow> 'a ndarray \<Rightarrow> 'a ndarray \<Rightarrow> exn + 'a" where
  "rel_error_score dt coreml_scores tf_scores =
     and_then (np_transpose_1_0 (squeeze tf_scores))
       (\<lambda>t. max_relative_error dt (squeeze coreml_scores) t)"

section \<open>The notebook as a script\<close>

text \<open>
  The notebook is a straight-line Python 2 script: ten code cells, taken here in the
  order of the file as one run, with one \<^verbatim>\<open>if\<close> and no \<^verbatim>\<open>try\<close>. Everything it does
  is a call into a library (the operating system, urllib, zipfile, TensorFlow, tfcoreml,
  requests, PIL, matplotlib, numpy, coremltools), apart from the name translation and the
  comparison modelled above.

  A \<open>step\<close> is the library work of one statement, with the arguments the script
  passes; an assignment of a constant or of a concatenated path is no step. A \<^verbatim>\<open>with\<close>
  block over a file is one step (open, read or write, close). When a statement inside
  the \<^verbatim>\<open>with tf.Session\<close> block raises, the session is released while the exception
  unwinds; that unwinding belongs to the failing step. The last four steps are the
  script's own Python: the tuple unpacking, the dictionary lookups and the two
  comparisons.
\<close>

datatype graph_var = Original_gdef | Gdef

datatype step =
    Import string
  | OsMakedirs string
  | UrlRetrieve string string
  | ZipFileOpen string
  | ZipExtractAll string
  | ZipClose
  | ReadFile string
  | ResetDefaultGraph
  | GraphDefNew
  | ParseFromString
  | ImportGraphDef graph_var string
  | StripUnused "string list" "string list"
  | WriteGraph string
  | Convert string string "(string \<times> nat list) list" "string list"
  | RequestsGet string
  | MatplotlibInline
  | ImageOpen
  | Imshow
  | ImageResize nat nat
  | Preprocess
  | SessionEnter
  | GetTensorByName string
  | SessionRun
  | SessionExit
  | TransposeImage
  | MLModelLoad string
  | Predict string
  | Print string
  | UnpackTfOutputs
  | LookupCoremlOutputs
  | RelErrorBox
  | RelErrorScore

text \<open>
  The libraries, as parameters: \<open>'w\<close> is the state of everything outside the script's
  own code (file system, network, the TensorFlow and CoreML runtimes, the Python objects
  they hand back). \<open>perform s w\<close> is what step \<open>s\<close> does in \<open>w\<close>: it raises, or it
  returns and leaves a new state. \<^verbatim>\<open>os.path.exists\<close> only answers. The two
  accessors read what \<^verbatim>\<open>sess.run\<close> and \<^verbatim>\<open>mlmodel.predict\<close> returned, arrays whose
  dtype (after numpy's conversion to a common one) is \<open>element_type\<close>.
\<close>

record ('w, 'a) lib =
  os_path_exists :: "string \<Rightarrow> 'w \<Rightarrow> bool"
  perform :: "step \<Rightarrow> 'w \<Rightarrow> exn + 'w"
  tf_output_values :: "'w \<Rightarrow> 'a ndarray list"
  coreml_outputs_dict :: "'w \<Rightarrow> string \<Rightarrow> 'a ndarray option"
  element_type :: "'a dtype"

text \<open>
  The state of a run: the outside world, the log of the steps executed so far, each with
  the exception it raised if any, and the script's variables that the comparison reads
  and writes (\<open>None\<close>: not assigned yet).
\<close>

record ('w, 'a) state =
  world :: 'w
  trace :: "(step \<times> exn option) list"
  tf_outputs :: "('a ndarray \<times> 'a ndarray) option"
  coreml_outputs :: "('a ndarray \<times> 'a ndarray) option"
  rel_errors_box :: "'a option"
  rel_errors_score :: "'a option"

type_synonym ('w, 'a) action = "('w, 'a) state \<Rightarrow> ('w, 'a) state \<times> exn option"

text \<open>A library step: it is logged with its outcome; an exception leaves the script.\<close>

definition invoke :: "('w, 'a) lib \<Rightarrow> step \<Rightarrow> ('w, 'a) action" where
  "invoke l s st =
     (case perform l s (world st) of
        Inl e \<Rightarrow> (st\<lparr>trace := trace st @ [(s, Some e)]\<rparr>, Some e)
      | Inr w \<Rightarrow> (st\<lparr>world := w, trace := trace st @ [(s, None)]\<rparr>, None))"


text \<open>Statements in sequence: the first exception ends the sequence.\<close>

fun run_all :: "('w, 'a) action list \<Rightarrow> ('w, 'a) action" where
  "run_all [] st = (st, None)"
| "run_all (a # as) st =
     (case a st of
        (st', None) \<Rightarrow> run_all as st'
      | (st', Some e) \<Rightarrow> (st', Some e))"

subsection \<open>The constants of the script\<close>

definition mobilenet_ssd_url :: string where
  "mobilenet_ssd_url = ''https://storage.googleapis.com/download.tensorflow.org/models/object_detection/ssd_mobilenet_v1_android_export.zip''"

definition example_dir :: string where
  "example_dir = ''/tmp/tfcoreml_ssd_example/''"

definition mobilenet_ssd_fpath :: string where
  "mobilenet_ssd_fpath = example_dir @ ''ssd_mobilenet_v1_android_export.zip''"










subsection \<open>The cells\<close>


text \<open>
  \<^verbatim>\<open>
  if not os.path.exists(example_dir):
      os.makedirs(example_dir)
  mobilenet_ssd_fpath = example_dir + 'ssd_mobilenet_v1_android_export.zip'
  urllib.urlretrieve(mobilenet_ssd_url, mobilenet_ssd_fpath)
  zip_ref = zipfile.ZipFile(mobilenet_ssd_fpath, 'r')
  zip_ref.extractall(example_dir)
  zip_ref.close()
  \<close>
  The \<^verbatim>\<open>if\<close> statement is \<open>ensure_directory\<close>, the five lines after it are
  \<open>download_and_extract\<close>.
\<close>

definition ensure_directory :: "('w, 'a) lib \<Rightarrow> ('w, 'a) action" where
  "ensure_directory l st =
     (if \<not> os_path_exists l example_dir (world st)
      then invoke l (OsMakedirs example_dir) st
      else (st, None))"

definition download_and_extract :: "('w, 'a) lib \<Rightarrow> ('w, 'a) action" where
  "download_and_extract l =
     run_all
       [invoke l (UrlRetrieve mobilenet_ssd_url mobilenet_ssd_fpath),
        invoke l (ZipFileOpen mobilenet_ssd_fpath),
        invoke l (ZipExtractAll example_dir),
        invoke l ZipClose]"

definition acquisition :: "('w, 'a) lib \<Rightarrow> ('w, 'a) action" where
  "acquisition l = run_all [ensure_directory l, download_and_extract l]"
















subsection \<open>The statements of the notebook, one after the other\<close>








subsection \<open>A fresh kernel and a small environment\<close>

text \<open>The state in which the first cell starts: nothing logged, no variable assigned.\<close>

definition initial_state :: "'w \<Rightarrow> ('w, 'a) state" where
  "initial_state w =
     \<lparr>world = w, trace = [], tf_outputs = None, coreml_outputs = None,
      rel_errors_box = None, rel_errors_score = None\<rparr>"

text \<open>
  A small environment on which the script can be run: the world is the list of the
  directories that exist; \<open>fault\<close> says which steps raise and what; every other step
  returns, \<^verbatim>\<open>os.makedirs\<close> adding its directory. The two runtimes return outputs of
  the shapes \<open>(1, 2, 3)\<close> and \<open>(1, 2, 2)\<close> in TensorFlow's layout and \<open>(3, 1, 2)\<close> and
  \<open>(2, 1, 2)\<close> in CoreML's, of floating-point numbers.
\<close>

definition example_lib :: "(step \<Rightarrow> exn option) \<Rightarrow> (string list, fp) lib" where
  "example_lib fault =
     \<lparr>os_path_exists = (\<lambda>p w. p \<in> set w),
      perform = (\<lambda>s w. case fault s of
                          Some e \<Rightarrow> Inl e
                        | None \<Rightarrow> (case s of OsMakedirs p \<Rightarrow> Inr (p # w) | _ \<Rightarrow> Inr w)),
      tf_output_values =
        (\<lambda>w. [\<lparr>shape = [1, 2, 3], data = map Finite [1, 2, 3, 4, 5, 6]\<rparr>,
              \<lparr>shape = [1, 2, 2], data = map Finite [0, 1, 0, 1]\<rparr>]),
      coreml_outputs_dict =
        (\<lambda>w. map_of
               [(''concat__0'', \<lparr>shape = [3, 1, 2], data = map Finite [1, 4, 2, 5, 3, 8]\<rparr>),
                (''concat_1__0'', \<lparr>shape = [2, 1, 2], data = map Finite [0, 0, 1, 1]\<rparr>)]),
      element_type = floating\<rparr>"

section \<open>Graph pruning\<close>

text \<open>
  The notebook prunes the graph by calling \<^verbatim>\<open>strip_unused_lib.strip_unused\<close>, which is
  TensorFlow's code and not in the repository. This section models the graph and the
  pruning from the specification (sections 3, 4.3 and 9).
\<close>

text \<open>
  Modelled from the spec: the node of a computation graph, missing with TensorFlow's
  \<^verbatim>\<open>NodeDef\<close>. ``A directed acyclic structure of named nodes with typed tensor
  inputs/outputs'': a node is its name, its operation, the names of the nodes it reads
  and its type attribute if it has one.
\<close>

record node =
  name :: string
  op :: string
  inputs :: "string list"
  dtype :: "nat option"

text \<open>
  Modelled from the spec: the graph, missing with TensorFlow's \<^verbatim>\<open>GraphDef\<close>: the list
  of its nodes.
\<close>

type_synonym graph = "node list"

text \<open>
  Modelled from the spec: the node that replaces an input node (``rewrite input nodes to
  a declared placeholder type''), missing with \<^verbatim>\<open>strip_unused\<close>: it keeps the name,
  reads nothing, and has the declared type.
\<close>

definition placeholder :: "string \<Rightarrow> nat \<Rightarrow> node" where
  "placeholder n placeholder_type_enum =
     \<lparr>name = n, op = ''Placeholder'', inputs = [], dtype = Some placeholder_type_enum\<rparr>"

text \<open>
  Modelled from the spec: the first half of \<^verbatim>\<open>strip_unused\<close>, ``rewrite input nodes to
  a declared placeholder type'': every node named as an input is replaced.
\<close>

definition replace_inputs :: "graph \<Rightarrow> string list \<Rightarrow> nat \<Rightarrow> graph" where
  "replace_inputs g input_names placeholder_type_enum =
     map (\<lambda>n. if name n \<in> set input_names
               then placeholder (name n) placeholder_type_enum else n) g"

text \<open>
  Modelled from the spec: one round of the backward traversal of \<^verbatim>\<open>strip_unused\<close>
  (``a standard graph-traversal implementation (visited-set + explicit stack/queue)''):
  to the names visited so far it adds the inputs of every node that has one of these
  names.
\<close>

definition expand :: "graph \<Rightarrow> string list \<Rightarrow> string list" where
  "expand g visited =
     remdups (visited @ concat (map inputs (filter (\<lambda>n. name n \<in> set visited) g)))"

text \<open>Modelled from the spec: \<open>k\<close> rounds of that traversal.\<close>

fun rounds :: "nat \<Rightarrow> graph \<Rightarrow> string list \<Rightarrow> string list" where
  "rounds 0 g visited = visited"
| "rounds (Suc k) g visited = expand g (rounds k g visited)"

text \<open>
  Modelled from the spec: ``the minimal node set reachable backward from outputs'', the
  traversal of \<^verbatim>\<open>strip_unused\<close> run to its end. A graph of \<open>k\<close> nodes needs at most
  \<open>k + 1\<close> rounds: the result is closed under one more round, and it is exactly the set
  of the names reachable from the outputs along input edges (lemmas
  \<open>reachable_closed\<close> and \<open>reachable_correct\<close>).
\<close>

definition reachable :: "graph \<Rightarrow> string list \<Rightarrow> string list" where
  "reachable g output_names = rounds (Suc (length g)) g output_names"

text \<open>
  Modelled from the spec: \<^verbatim>\<open>strip_unused\<close> itself. ``Given a full graph, a list of
  input node names, and a list of output node names, compute the minimal node set
  reachable backward from outputs to inputs, rewrite input nodes to a declared
  placeholder type, and return a new graph containing only that reachable subgraph''.
  The traversal stops at the input nodes because their placeholders read nothing.
\<close>

definition strip_unused :: "graph \<Rightarrow> string list \<Rightarrow> string list \<Rightarrow> nat \<Rightarrow> graph" where
  "strip_unused input_graph_def input_names output_names placeholder_type_enum =
     (let replaced = replace_inputs input_graph_def input_names placeholder_type_enum;
          keep = reachable replaced output_names
      in filter (\<lambda>n. name n \<in> set keep) replaced)"

text \<open>
  Modelled from the spec: the edges of the graph, from a node's name to the names it
  reads, for stating what ``reachable backward'' means.
\<close>

definition input_edges :: "graph \<Rightarrow> (string \<times> string) set" where
  "input_edges g = {(x, y). \<exists>n \<in> set g. name n = x \<and> y \<in> set (inputs n)}"

text \<open>
  Modelled from the spec: ``reachable backward from outputs'' in the specification's
  words, against which the traversal is compared: a name to which a path of input edges
  leads from an output name.
\<close>

definition backward_reachable :: "graph \<Rightarrow> string list \<Rightarrow> string set" where
  "backward_reachable g output_names = (input_edges g)\<^sup>* `` set output_names"

text \<open>
  Modelled from the spec: the nodes of the graph whose names have been visited, for the
  proof that the traversal ends.
\<close>

definition active :: "graph \<Rightarrow> string list \<Rightarrow> node set" where
  "active g S = {n \<in> set g. name n \<in> set S}"

section \<open>Properties of the array operations\<close>

lemma and_then_Inr [simp]: "and_then (Inr v) f = f v"
  by (simp add: and_then_def)

lemma and_then_Inl [simp]: "and_then (Inl e) f = Inl e"
  by (simp add: and_then_def)


lemma and_then_eq_Inr:
  "and_then m f = Inr r \<longleftrightarrow> (\<exists>v. m = Inr v \<and> f v = Inr r)"
  by (cases m) simp_all

lemma concat_blocks:
  "length xs = d * n \<Longrightarrow> concat (map (\<lambda>i. take n (drop (i * n) xs)) [0..<d]) = xs"
proof (induction d arbitrary: xs)
  case 0
  then show ?case by simp
next
  case (Suc d)
  have len: "length (drop n xs) = d * n"
    using Suc.prems by simp
  have "concat (map (\<lambda>i. take n (drop (i * n) xs)) [0..<Suc d])
      = take n xs @ concat (map (\<lambda>i. take n (drop (Suc i * n) xs)) [0..<d])"
    by (simp only: upt_conv_Cons [of 0 "Suc d"] map_Suc_upt [symmetric]) (simp add: comp_def)
  also have "(\<lambda>i. take n (drop (Suc i * n) xs)) = (\<lambda>i. take n (drop (i * n) (drop n xs)))"
    by (simp add: add.commute)
  also have "concat (map (\<lambda>i. take n (drop (i * n) (drop n xs))) [0..<d]) = drop n xs"
    using Suc.IH [OF len] .
  finally show ?case by simp
qed

lemma stretch_same:
  "length xs = prod_list s \<Longrightarrow> stretch s s xs = xs"
proof (induction s arbitrary: xs)
  case Nil
  then show ?case by simp
next
  case (Cons d ds)
  let ?n = "prod_list ds"
  have len: "length xs = d * ?n" using Cons.prems by simp
  have blk: "stretch ds ds (take ?n (drop (i * ?n) xs)) = take ?n (drop (i * ?n) xs)"
    if "i < d" for i
  proof (rule Cons.IH)
    have "Suc i * ?n \<le> d * ?n" using that by (intro mult_le_mono1) simp
    then show "length (take ?n (drop (i * ?n) xs)) = ?n"
      using len by simp
  qed
  have eq: "map (\<lambda>i. stretch ds ds (take ?n (drop (i * ?n) xs))) [0..<d]
      = map (\<lambda>i. take ?n (drop (i * ?n) xs)) [0..<d]"
    by (rule map_cong) (simp_all add: blk)
  show ?case
    by (simp only: stretch.simps Let_def eq concat_blocks [OF len]) simp
qed

lemma set_stretch: "set (stretch s t xs) \<subseteq> set xs"
proof (induction s t xs rule: stretch.induct)
  case (1 d ds t ts xs)
  have "x \<in> set xs"
    if "i < d" and x: "x \<in> set (stretch ds ts (take (prod_list ds) (drop (i * prod_list ds) xs)))"
    for i x
  proof -
    have "set (stretch ds ts (take (prod_list ds) (drop (i * prod_list ds) xs)))
        \<subseteq> set (take (prod_list ds) (drop (i * prod_list ds) xs))"
      using that by (intro "1.IH") simp_all
    also have "\<dots> \<subseteq> set xs"
      by (meson set_take_subset set_drop_subset subset_trans)
    finally show ?thesis using x by blast
  qed
  then show ?case
    by (auto simp: Let_def)
qed simp_all

lemma broadcast_rev_same: "broadcast_rev s s = Inr s"
  by (induction s) simp_all

lemma broadcast_shapes_same: "broadcast_shapes s s = Inr s"
  by (simp add: broadcast_shapes_def broadcast_rev_same)

lemma broadcast_to_same: "well_formed a \<Longrightarrow> broadcast_to (shape a) a = data a"
  by (simp add: broadcast_to_def well_formed_def stretch_same)

lemma ufunc2_same_shape:
  assumes "well_formed a" "well_formed b" "shape a = shape b"
  shows "ufunc2 f a b = Inr \<lparr>shape = shape a, data = map2 f (data a) (data b)\<rparr>"
  using assms broadcast_to_same [of a] broadcast_to_same [of b]
  by (simp add: ufunc2_def broadcast_shapes_same)

lemma broadcast_rev_Nil2: "broadcast_rev s [] = Inr s"
  by (cases s) simp_all

lemma stretch_scalar:
  "stretch (replicate (length s) 1) s [c] = replicate (prod_list s) c"
proof (induction s)
  case Nil
  then show ?case by simp
next
  case (Cons t ts)
  have blocks: "concat (map (\<lambda>i. stretch (replicate (length ts) 1) ts (take (prod_list (replicate (length ts) 1)) (drop (i * prod_list (replicate (length ts) 1)) [c]))) [0..<1])
      = replicate (prod_list ts) c"
    using Cons.IH by simp
  have rep: "concat (replicate t (replicate m c)) = replicate (t * m) c" for m
    by (induction t) (simp_all add: replicate_add)
  show ?case
  proof (cases "t = 1")
    case True
    then show ?thesis
      by (simp only: length_Cons replicate_Suc stretch.simps Let_def blocks prod_list.Cons mult_1) simp
  next
    case False
    then have ne: "(1::nat) \<noteq> t" by simp
    show ?thesis
      by (simp only: length_Cons replicate_Suc stretch.simps Let_def blocks rep prod_list.Cons) (simp add: ne)
  qed
qed

lemma broadcast_shapes_Nil2: "broadcast_shapes s [] = Inr s"
  by (simp add: broadcast_shapes_def broadcast_rev_Nil2)

lemma map2_replicate: "map2 f xs (replicate (length xs) c) = map (\<lambda>u. f u c) xs"
  by (induction xs) simp_all

lemma broadcast_to_scalar: "broadcast_to s (scalar c) = replicate (prod_list s) c"
  using stretch_scalar [of s c] by (simp add: broadcast_to_def scalar_def)

lemma ufunc2_scalar:
  assumes "well_formed a"
  shows "ufunc2 f a (scalar c) = Inr \<lparr>shape = shape a, data = map (\<lambda>u. f u c) (data a)\<rparr>"
proof -
  have "broadcast_shapes (shape a) (shape (scalar c)) = Inr (shape a)"
    by (simp add: scalar_def broadcast_shapes_Nil2)
  moreover have "map2 f (broadcast_to (shape a) a) (broadcast_to (shape a) (scalar c))
      = map (\<lambda>u. f u c) (data a)"
    using assms map2_replicate [of f "data a" c]
    by (simp add: broadcast_to_same broadcast_to_scalar well_formed_def)
  ultimately show ?thesis
    by (simp add: ufunc2_def)
qed

lemma map2_conv_nth:
  "length xs = length ys \<Longrightarrow> map2 f xs ys = map (\<lambda>i. f (xs ! i) (ys ! i)) [0..<length xs]"
  by (rule nth_equalityI) simp_all

lemma set_map2_conv_image:
  "length xs = length ys \<Longrightarrow> set (map2 f xs ys) = (\<lambda>i. f (xs ! i) (ys ! i)) ` {..<length xs}"
  by (simp only: map2_conv_nth set_map set_upt lessThan_atLeast0)

lemma map2_fuse:
  "length xs = length ys \<Longrightarrow>
   map2 (dt_divide dt) (map (dt_absolute dt) (map2 (dt_subtract dt) xs ys))
     (map (\<lambda>u. dt_maximum dt u (dt_one dt)) (map2 (dt_maximum dt) xs ys))
     = map2 (pointwise_error dt) xs ys"
  by (induction xs ys rule: list_induct2) (simp_all add: pointwise_error_def)

lemma max_relative_error_same_shape:
  assumes "well_formed x" "well_formed y" "shape x = shape y"
  shows "max_relative_error dt x y
     = np_max dt \<lparr>shape = shape x, data = map2 (pointwise_error dt) (data x) (data y)\<rparr>"
proof -
  let ?m = "\<lparr>shape = shape x, data = map2 (dt_maximum dt) (data x) (data y)\<rparr>"
  let ?den = "\<lparr>shape = shape x,
      data = map (\<lambda>u. dt_maximum dt u (dt_one dt)) (map2 (dt_maximum dt) (data x) (data y))\<rparr>"
  let ?d = "\<lparr>shape = shape x, data = map2 (dt_subtract dt) (data x) (data y)\<rparr>"
  have len: "length (data x) = length (data y)"
    using assms by (simp add: well_formed_def)
  have wf_m: "well_formed ?m"
    using assms by (simp add: well_formed_def)
  have wf_den: "well_formed ?den"
    using assms by (simp add: well_formed_def)
  have wf_abs: "well_formed (np_abs dt ?d)"
    using assms by (simp add: well_formed_def np_abs_def)
  have 1: "np_maximum dt x y = Inr ?m"
    using assms by (simp add: np_maximum_def ufunc2_same_shape)
  have 2: "np_maximum dt ?m (scalar (dt_one dt)) = Inr ?den"
    using ufunc2_scalar [OF wf_m, of "dt_maximum dt" "dt_one dt"] by (simp add: np_maximum_def)
  have 3: "np_subtract dt x y = Inr ?d"
    using assms by (simp add: np_subtract_def ufunc2_same_shape)
  have 4: "np_divide dt (np_abs dt ?d) ?den
      = Inr \<lparr>shape = shape x, data = map2 (pointwise_error dt) (data x) (data y)\<rparr>"
    using ufunc2_same_shape [OF wf_abs wf_den, of "dt_divide dt"] map2_fuse [OF len, of dt]
    by (simp add: np_divide_def np_abs_def)
  show ?thesis
    by (simp only: max_relative_error_def 1 2 3 4 and_then_Inr)
qed

lemma np_max_empty: "data a = [] \<Longrightarrow> np_max dt a = Inl ValueError"
  by (simp add: np_max_def)

lemma max_relative_error_empty:
  "max_relative_error dt \<lparr>shape = [0], data = []\<rparr> \<lparr>shape = [0], data = []\<rparr> = Inl ValueError"
  by (simp add: max_relative_error_same_shape well_formed_def np_max_def)

lemma clamped_denominator:
  assumes "well_formed x" "well_formed y" "shape x = shape y"
  shows "and_then (np_maximum dt x y) (\<lambda>den. np_maximum dt den (scalar (dt_one dt)))
     = Inr \<lparr>shape = shape x,
            data = map2 (\<lambda>a b. dt_maximum dt (dt_maximum dt a b) (dt_one dt)) (data x) (data y)\<rparr>"
proof -
  let ?m = "\<lparr>shape = shape x, data = map2 (dt_maximum dt) (data x) (data y)\<rparr>"
  have wf_m: "well_formed ?m"
    using assms by (simp add: well_formed_def)
  have 1: "np_maximum dt x y = Inr ?m"
    using assms by (simp add: np_maximum_def ufunc2_same_shape)
  have 2: "np_maximum dt ?m (scalar (dt_one dt))
      = Inr \<lparr>shape = shape x,
             data = map (\<lambda>u. dt_maximum dt u (dt_one dt)) (map2 (dt_maximum dt) (data x) (data y))\<rparr>"
    using ufunc2_scalar [OF wf_m, of "dt_maximum dt" "dt_one dt"] by (simp add: np_maximum_def)
  have 3: "map (\<lambda>u. dt_maximum dt u (dt_one dt)) (map2 (dt_maximum dt) (data x) (data y))
      = map2 (\<lambda>a b. dt_maximum dt (dt_maximum dt a b) (dt_one dt)) (data x) (data y)"
    by (simp add: case_prod_unfold)
  show ?thesis
    by (simp only: 1 and_then_Inr 2 3)
qed


section \<open>The laws of a dtype\<close>

lemma faithfulI:
  assumes one: "dt_isfinite dt (dt_one dt)" "dt_value dt (dt_one dt) = 1"
    and mx: "\<And>a b. dt_le dt a a \<Longrightarrow> dt_le dt b b \<Longrightarrow>
               dt_maximum dt a b = (if dt_le dt a b then b else a)"
    and tot: "\<And>a b. dt_le dt a a \<Longrightarrow> dt_le dt b b \<Longrightarrow> dt_le dt a b \<or> dt_le dt b a"
    and tr: "\<And>a b c. dt_le dt a b \<Longrightarrow> dt_le dt b c \<Longrightarrow> dt_le dt a c"
    and nan: "\<And>a b. dt_le dt (dt_maximum dt a b) (dt_maximum dt a b) \<Longrightarrow>
               dt_le dt a a \<and> dt_le dt b b"
    and num: "\<And>a. dt_isfinite dt a \<Longrightarrow> dt_le dt a a"
    and le: "\<And>a b. dt_isfinite dt a \<Longrightarrow> dt_isfinite dt b \<Longrightarrow>
               dt_le dt a b = (dt_value dt a \<le> dt_value dt b)"
    and d1: "\<And>n. dt_divide dt n (dt_one dt) = n"
    and dv: "\<And>n d. dt_isfinite dt n \<Longrightarrow> dt_isfinite dt d \<Longrightarrow> 1 \<le> dt_value dt d \<Longrightarrow>
               dt_isfinite dt (dt_divide dt n d)
               \<and> (0 \<le> dt_value dt n \<longrightarrow> 0 \<le> dt_value dt (dt_divide dt n d))
               \<and> (dt_value dt n = 0 \<longrightarrow> dt_value dt (dt_divide dt n d) = 0)"
    and self: "\<And>a. dt_isfinite dt a \<Longrightarrow>
               dt_isfinite dt (dt_absolute dt (dt_subtract dt a a))
               \<and> dt_value dt (dt_absolute dt (dt_subtract dt a a)) = 0"
  shows "faithful dt"
  unfolding faithful_def
proof (intro conjI)
  show "dt_isfinite dt (dt_one dt)" "dt_value dt (dt_one dt) = 1" by (rule one)+
  show "\<forall>a b. dt_le dt a a \<and> dt_le dt b b \<longrightarrow>
          dt_maximum dt a b = (if dt_le dt a b then b else a) \<and> (dt_le dt a b \<or> dt_le dt b a)"
    using mx tot by blast
  show "\<forall>a b c. dt_le dt a b \<and> dt_le dt b c \<longrightarrow> dt_le dt a c"
    using tr by blast
  show "\<forall>a b. dt_le dt (dt_maximum dt a b) (dt_maximum dt a b) \<longrightarrow> dt_le dt a a \<and> dt_le dt b b"
    using nan by blast
  show "\<forall>a. dt_isfinite dt a \<longrightarrow> dt_le dt a a"
    using num by blast
  show "\<forall>a b. dt_isfinite dt a \<and> dt_isfinite dt b \<longrightarrow>
          dt_le dt a b = (dt_value dt a \<le> dt_value dt b)"
    using le by blast
  show "\<forall>n. dt_divide dt n (dt_one dt) = n"
    using d1 by blast
  show "\<forall>n d. dt_isfinite dt n \<and> dt_isfinite dt d \<and> 1 \<le> dt_value dt d \<longrightarrow>
          dt_isfinite dt (dt_divide dt n d)
          \<and> (0 \<le> dt_value dt n \<longrightarrow> 0 \<le> dt_value dt (dt_divide dt n d))
          \<and> (dt_value dt n = 0 \<longrightarrow> dt_value dt (dt_divide dt n d) = 0)"
    using dv by blast
  show "\<forall>a. dt_isfinite dt a \<longrightarrow>
          dt_isfinite dt (dt_absolute dt (dt_subtract dt a a))
          \<and> dt_value dt (dt_absolute dt (dt_subtract dt a a)) = 0"
    using self by blast
qed

lemma faithful_one:
  "faithful dt \<Longrightarrow> dt_isfinite dt (dt_one dt)" "faithful dt \<Longrightarrow> dt_value dt (dt_one dt) = 1"
  unfolding faithful_def by blast+

lemma faithful_maximum:
  "faithful dt \<Longrightarrow> dt_le dt a a \<Longrightarrow> dt_le dt b b \<Longrightarrow>
   dt_maximum dt a b = (if dt_le dt a b then b else a)"
  unfolding faithful_def by blast

lemma faithful_total:
  "faithful dt \<Longrightarrow> dt_le dt a a \<Longrightarrow> dt_le dt b b \<Longrightarrow> dt_le dt a b \<or> dt_le dt b a"
  unfolding faithful_def by blast

lemma faithful_trans:
  "faithful dt \<Longrightarrow> dt_le dt a b \<Longrightarrow> dt_le dt b c \<Longrightarrow> dt_le dt a c"
  unfolding faithful_def by blast


lemma faithful_number: "faithful dt \<Longrightarrow> dt_isfinite dt a \<Longrightarrow> dt_le dt a a"
  unfolding faithful_def by blast

lemma faithful_le:
  "faithful dt \<Longrightarrow> dt_isfinite dt a \<Longrightarrow> dt_isfinite dt b \<Longrightarrow>
   dt_le dt a b = (dt_value dt a \<le> dt_value dt b)"
  unfolding faithful_def by blast

lemma faithful_divide_one: "faithful dt \<Longrightarrow> dt_divide dt n (dt_one dt) = n"
  unfolding faithful_def by blast

lemma faithful_divide:
  assumes "faithful dt" "dt_isfinite dt n" "dt_isfinite dt d" "1 \<le> dt_value dt d"
  shows "dt_isfinite dt (dt_divide dt n d)"
    and "0 \<le> dt_value dt n \<Longrightarrow> 0 \<le> dt_value dt (dt_divide dt n d)"
    and "dt_value dt n = 0 \<Longrightarrow> dt_value dt (dt_divide dt n d) = 0"
  using assms unfolding faithful_def by blast+

lemma faithful_self:
  assumes "faithful dt" "dt_isfinite dt a"
  shows "dt_isfinite dt (dt_absolute dt (dt_subtract dt a a))"
    and "dt_value dt (dt_absolute dt (dt_subtract dt a a)) = 0"
  using assms unfolding faithful_def by blast+

subsection \<open>The dtypes of numpy obey the laws\<close>

lemma faithful_unsigned_int: "faithful (unsigned_int :: 'a::len word dtype)"
proof -
  have zero: "unat n = 0 \<Longrightarrow> unat (n div d) = 0" for n d :: "'a word"
    by (simp add: unat_eq_0)
  show ?thesis
    unfolding faithful_def unsigned_int_def
    by (auto simp del: of_nat_unat simp add: word_le_nat_alt zero)
qed

lemma sint_one: "1 < LENGTH('a) \<Longrightarrow> sint (1 :: 'a::len word) = 1"
  by (simp add: signed_1)

lemma sint_quotient:
  fixes n d :: "'a::len word"
  assumes "0 \<le> sint n" "1 \<le> sint d"
  shows "sint (word_of_int (sint n div sint d) :: 'a word) = sint n div sint d"
proof -
  have "sint n div sint d \<le> sint n"
    using assms int_div_le_self by force
  then have up: "sint n div sint d < 2 ^ (LENGTH('a) - 1)"
    using sint_lt [of n] by linarith
  have "0 \<le> sint n div sint d"
    using assms by (simp add: pos_imp_zdiv_nonneg_iff)
  then have lo: "- (2 ^ (LENGTH('a) - 1)) \<le> sint n div sint d"
    by (rule order_trans [rotated]) simp
  show ?thesis
    by (simp only: sint_sbintrunc' signed_take_bit_int_eq_self [OF lo up])
qed

text \<open>Every signed integer dtype of numpy has at least 8 bits.\<close>

lemma faithful_signed_int:
  assumes "1 < LENGTH('a)"
  shows "faithful (signed_int :: 'a::len word dtype)"
proof -
  have one: "sint (1 :: 'a word) = 1"
    using assms by (rule sint_one)
  have q: "0 \<le> sint (word_of_int (sint n div sint d) :: 'a word)"
    if "0 \<le> sint n" "1 \<le> sint d" for n d :: "'a word"
    using that by (simp add: sint_quotient pos_imp_zdiv_nonneg_iff)
  have z: "sint (word_of_int (sint n div sint d) :: 'a word) = 0"
    if "sint n = 0" for n d :: "'a word"
    using that by simp
  have id: "word_of_int (sint n) = n" for n :: "'a word"
    by simp
  show ?thesis
    unfolding faithful_def signed_int_def
    using assms by (auto simp del: of_int_sint simp add: one q z id)
qed

lemma faithful_floating: "faithful floating"
proof (rule faithfulI)
  show "dt_isfinite floating (dt_one floating)" "dt_value floating (dt_one floating) = 1"
    by (simp_all add: floating_def)
  show "dt_maximum floating a b = (if dt_le floating a b then b else a)"
    if "dt_le floating a a" "dt_le floating b b" for a b
    using that by (cases a; cases b) (simp_all add: floating_def)
  show "dt_le floating a b \<or> dt_le floating b a"
    if "dt_le floating a a" "dt_le floating b b" for a b
    using that by (cases a; cases b) (auto simp: floating_def)
  show "dt_le floating a c" if "dt_le floating a b" "dt_le floating b c" for a b c
    using that by (cases a; cases b; cases c) (simp_all add: floating_def)
  show "dt_le floating a a \<and> dt_le floating b b"
    if "dt_le floating (dt_maximum floating a b) (dt_maximum floating a b)" for a b
    using that by (cases a; cases b) (simp_all add: floating_def)
  show "dt_le floating a a" if "dt_isfinite floating a" for a
    using that by (cases a) (simp_all add: floating_def)
  show "dt_le floating a b = (dt_value floating a \<le> dt_value floating b)"
    if "dt_isfinite floating a" "dt_isfinite floating b" for a b
    using that by (cases a; cases b) (simp_all add: floating_def)
  show "dt_divide floating n (dt_one floating) = n" for n
    by (cases n) (simp_all add: floating_def)
  show "dt_isfinite floating (dt_divide floating n d)
        \<and> (0 \<le> dt_value floating n \<longrightarrow> 0 \<le> dt_value floating (dt_divide floating n d))
        \<and> (dt_value floating n = 0 \<longrightarrow> dt_value floating (dt_divide floating n d) = 0)"
    if "dt_isfinite floating n" "dt_isfinite floating d" "1 \<le> dt_value floating d" for n d
    using that by (cases n; cases d) (auto simp: floating_def)
  show "dt_isfinite floating (dt_absolute floating (dt_subtract floating a a))
        \<and> dt_value floating (dt_absolute floating (dt_subtract floating a a)) = 0"
    if "dt_isfinite floating a" for a
    using that by (cases a) (simp_all add: floating_def)
qed


lemma exact_difference_floating: "exact_difference floating (Finite a) (Finite b)"
  by (simp add: exact_difference_def floating_def)

lemma sound_difference_floating: "sound_difference floating (Finite a) (Finite b)"
  by (simp add: sound_difference_def floating_def)

subsection \<open>The clamped denominator of one position\<close>


lemma denominator_finite:
  assumes f: "faithful dt" and a: "dt_isfinite dt a" and b: "dt_isfinite dt b"
  shows "dt_isfinite dt (dt_maximum dt (dt_maximum dt a b) (dt_one dt))"
    and "dt_value dt (dt_maximum dt (dt_maximum dt a b) (dt_one dt))
           = max (max (dt_value dt a) (dt_value dt b)) 1"
proof -
  let ?m = "dt_maximum dt a b"
  have na: "dt_le dt a a" and nb: "dt_le dt b b"
    using faithful_number [OF f] a b by blast+
  have m: "?m = (if dt_le dt a b then b else a)"
    by (rule faithful_maximum [OF f na nb])
  have fm: "dt_isfinite dt ?m"
    using a b by (simp add: m)
  have vm: "dt_value dt ?m = max (dt_value dt a) (dt_value dt b)"
    using faithful_le [OF f a b] by (simp add: m max_def)
  have fo: "dt_isfinite dt (dt_one dt)" and vo: "dt_value dt (dt_one dt) = 1"
    by (rule faithful_one [OF f])+
  have d: "dt_maximum dt ?m (dt_one dt) = (if dt_le dt ?m (dt_one dt) then dt_one dt else ?m)"
    by (rule faithful_maximum [OF f faithful_number [OF f fm] faithful_number [OF f fo]])
  show "dt_isfinite dt (dt_maximum dt ?m (dt_one dt))"
    using fm fo by (simp add: d)
  show "dt_value dt (dt_maximum dt ?m (dt_one dt)) = max (max (dt_value dt a) (dt_value dt b)) 1"
    using faithful_le [OF f fm fo] by (simp add: d vm vo max_def)
qed


lemma denominator_small:
  assumes f: "faithful dt" and a: "dt_isfinite dt a" and b: "dt_isfinite dt b"
    and "dt_value dt a \<le> 1" "dt_value dt b \<le> 1"
  shows "dt_maximum dt (dt_maximum dt a b) (dt_one dt) = dt_one dt"
proof -
  let ?m = "dt_maximum dt a b"
  have na: "dt_le dt a a" and nb: "dt_le dt b b"
    using faithful_number [OF f] a b by blast+
  have m: "?m = (if dt_le dt a b then b else a)"
    by (rule faithful_maximum [OF f na nb])
  have fm: "dt_isfinite dt ?m" and vm: "dt_value dt ?m \<le> 1"
    using a b assms(4,5) by (simp_all add: m)
  have fo: "dt_isfinite dt (dt_one dt)" and vo: "dt_value dt (dt_one dt) = 1"
    by (rule faithful_one [OF f])+
  have "dt_le dt ?m (dt_one dt)"
    using faithful_le [OF f fm fo] vm vo by simp
  moreover have "dt_maximum dt ?m (dt_one dt) = (if dt_le dt ?m (dt_one dt) then dt_one dt else ?m)"
    by (rule faithful_maximum [OF f faithful_number [OF f fm] faithful_number [OF f fo]])
  ultimately show ?thesis
    by simp
qed

subsection \<open>The reduction\<close>

lemma reduce_maximum:
  assumes f: "faithful dt"
  shows "dt_le dt v v \<Longrightarrow> (\<And>u. u \<in> set vs \<Longrightarrow> dt_le dt u u) \<Longrightarrow>
     fold (\<lambda>u acc. dt_maximum dt acc u) vs v \<in> set (v # vs)
     \<and> (\<forall>u\<in>set (v # vs). dt_le dt u (fold (\<lambda>u acc. dt_maximum dt acc u) vs v))"
proof (induction vs arbitrary: v)
  case Nil
  then show ?case by simp
next
  case (Cons w ws)
  let ?m = "dt_maximum dt v w"
  let ?r = "fold (\<lambda>u acc. dt_maximum dt acc u) ws ?m"
  have w: "dt_le dt w w"
    using Cons.prems(2) by simp
  have m: "?m = (if dt_le dt v w then w else v)"
    by (rule faithful_maximum [OF f Cons.prems(1) w])
  have mm: "dt_le dt ?m ?m"
    using Cons.prems(1) w by (simp add: m)
  have vm: "dt_le dt v ?m" and wm: "dt_le dt w ?m"
    using faithful_total [OF f Cons.prems(1) w] Cons.prems(1) w by (auto simp: m)
  have ih: "?r \<in> set (?m # ws) \<and> (\<forall>u\<in>set (?m # ws). dt_le dt u ?r)"
    by (rule Cons.IH [OF mm]) (simp add: Cons.prems(2))
  then have mr: "dt_le dt ?m ?r"
    by simp
  have "?r \<in> set (v # w # ws)"
    using ih by (auto simp: m split: if_splits)
  moreover have "dt_le dt v ?r" "dt_le dt w ?r"
    using faithful_trans [OF f vm mr] faithful_trans [OF f wm mr] by blast+
  ultimately show ?case
    using ih by simp
qed

lemma np_max_numbers:
  assumes f: "faithful dt" and ne: "data a \<noteq> []"
    and num: "\<And>u. u \<in> set (data a) \<Longrightarrow> dt_le dt u u"
  shows "\<exists>r. np_max dt a = Inr r \<and> r \<in> set (data a) \<and> (\<forall>u\<in>set (data a). dt_le dt u r)"
proof -
  obtain v vs where d: "data a = v # vs"
    using ne by (cases "data a") simp_all
  have "fold (\<lambda>u acc. dt_maximum dt acc u) vs v \<in> set (v # vs)
     \<and> (\<forall>u\<in>set (v # vs). dt_le dt u (fold (\<lambda>u acc. dt_maximum dt acc u) vs v))"
    by (rule reduce_maximum [OF f]) (simp_all add: num d)
  then show ?thesis
    by (simp add: np_max_def d)
qed

lemma np_max_finite:
  assumes f: "faithful dt" and ne: "data a \<noteq> []"
    and fin: "\<And>u. u \<in> set (data a) \<Longrightarrow> dt_isfinite dt u"
  shows "\<exists>r. np_max dt a = Inr r \<and> r \<in> set (data a) \<and> dt_isfinite dt r
           \<and> dt_value dt r = Max (dt_value dt ` set (data a))"
proof -
  obtain r where r: "np_max dt a = Inr r" "r \<in> set (data a)"
      and top: "\<And>u. u \<in> set (data a) \<Longrightarrow> dt_le dt u r"
    using np_max_numbers [OF f ne faithful_number [OF f fin]] by blast
  have fr: "dt_isfinite dt r"
    using r(2) by (rule fin)
  have "Max (dt_value dt ` set (data a)) = dt_value dt r"
  proof (rule Max_eqI)
    show "finite (dt_value dt ` set (data a))" by simp
    show "dt_value dt r \<in> dt_value dt ` set (data a)" using r(2) by (rule imageI)
    show "y \<le> dt_value dt r" if y: "y \<in> dt_value dt ` set (data a)" for y
    proof -
      obtain u where u: "u \<in> set (data a)" "y = dt_value dt u"
        using y by blast
      show ?thesis
        using top [OF u(1)] faithful_le [OF f fin [OF u(1)] fr] u(2) by simp
    qed
  qed
  then show ?thesis
    using r fr by simp
qed

section \<open>Properties of \<^verbatim>\<open>max_relative_error\<close>\<close>

subsection \<open>Every position of two arrays of equal shape\<close>

lemma pointwise_errors_finite:
  assumes f: "faithful dt"
    and a: "dt_isfinite dt a" and b: "dt_isfinite dt b"
    and n: "dt_isfinite dt (dt_absolute dt (dt_subtract dt a b))"
  shows "dt_isfinite dt (pointwise_error dt a b)"
    and "0 \<le> dt_value dt (dt_absolute dt (dt_subtract dt a b)) \<Longrightarrow>
         0 \<le> dt_value dt (pointwise_error dt a b)"
    and "dt_value dt (dt_absolute dt (dt_subtract dt a b)) = 0 \<Longrightarrow>
         dt_value dt (pointwise_error dt a b) = 0"
proof -
  let ?d = "dt_maximum dt (dt_maximum dt a b) (dt_one dt)"
  have fd: "dt_isfinite dt ?d"
    by (rule denominator_finite(1) [OF f a b])
  have vd: "1 \<le> dt_value dt ?d"
    by (simp add: denominator_finite(2) [OF f a b])
  show "dt_isfinite dt (pointwise_error dt a b)"
    unfolding pointwise_error_def by (rule faithful_divide(1) [OF f n fd vd])
  show "0 \<le> dt_value dt (pointwise_error dt a b)"
    if "0 \<le> dt_value dt (dt_absolute dt (dt_subtract dt a b))"
    unfolding pointwise_error_def by (rule faithful_divide(2) [OF f n fd vd that])
  show "dt_value dt (pointwise_error dt a b) = 0"
    if "dt_value dt (dt_absolute dt (dt_subtract dt a b)) = 0"
    unfolding pointwise_error_def by (rule faithful_divide(3) [OF f n fd vd that])
qed

lemma pointwise_error_small:
  assumes f: "faithful dt" and a: "dt_isfinite dt a" and b: "dt_isfinite dt b"
    and "dt_value dt a \<le> 1" "dt_value dt b \<le> 1"
  shows "pointwise_error dt a b = dt_absolute dt (dt_subtract dt a b)"
  unfolding pointwise_error_def
  by (simp only: denominator_small [OF assms] faithful_divide_one [OF f])

subsection \<open>The two argument orders\<close>

lemma broadcast_rev_commute: "broadcast_rev s t = broadcast_rev t s"
  by (induction s t rule: broadcast_rev.induct) (auto simp: broadcast_rev_Nil2)

lemma broadcast_shapes_commute: "broadcast_shapes s t = broadcast_shapes t s"
  by (simp add: broadcast_shapes_def broadcast_rev_commute [of "rev s"])

lemma map2_flip: "map2 f xs ys = map2 (\<lambda>u v. f v u) ys xs"
  by (subst zip_commute) (simp add: case_prod_unfold)

lemma ufunc2_flip: "ufunc2 f a b = ufunc2 (\<lambda>u v. f v u) b a"
  by (simp add: ufunc2_def broadcast_shapes_commute [of "shape a"] map2_flip [of f])

text \<open>
  In a dtype whose \<^verbatim>\<open>np.maximum\<close> and \<^verbatim>\<open>abs(a-b)\<close> do not depend on the order of the
  operands, \<open>max_relative_error\<close> does not either, for arrays of any shapes: the clamp
  \<^verbatim>\<open>np.maximum(den,1)\<close> is applied to a symmetric denominator.
\<close>

lemma max_relative_error_commute:
  assumes mx: "\<And>a b. dt_maximum dt a b = dt_maximum dt b a"
    and ab: "\<And>a b. dt_absolute dt (dt_subtract dt a b) = dt_absolute dt (dt_subtract dt b a)"
  shows "max_relative_error dt x y = max_relative_error dt y x"
proof -
  have "(\<lambda>u v. dt_maximum dt v u) = dt_maximum dt"
    by (intro ext) (rule mx)
  then have m: "np_maximum dt x y = np_maximum dt y x"
    using ufunc2_flip [of "dt_maximum dt" x y] by (simp add: np_maximum_def)
  have flip: "np_subtract dt y x = ufunc2 (\<lambda>u v. dt_subtract dt v u) x y"
    using ufunc2_flip [of "dt_subtract dt" y x] by (simp add: np_subtract_def)
  have "dt_absolute dt \<circ> (\<lambda>(u, v). dt_subtract dt u v)
      = dt_absolute dt \<circ> (\<lambda>(u, v). dt_subtract dt v u)"
    by (auto simp: fun_eq_iff ab)
  then have s: "and_then (np_subtract dt x y) (\<lambda>d. F (np_abs dt d))
      = and_then (np_subtract dt y x) (\<lambda>d. F (np_abs dt d))" for F :: "'a ndarray \<Rightarrow> exn + 'a"
    unfolding flip
    by (cases "broadcast_shapes (shape x) (shape y)")
      (simp_all add: np_subtract_def ufunc2_def np_abs_def)
  show ?thesis
    unfolding max_relative_error_def m
    by (intro arg_cong [where f = "and_then (np_maximum dt y x)"] ext
          arg_cong [where f = "and_then (np_maximum dt _ (scalar (dt_one dt)))"])
      (rule s)
qed

lemma max_relative_error_commute_floating:
  "max_relative_error floating x y = max_relative_error floating y x"
proof (rule max_relative_error_commute)
  show "dt_maximum floating a b = dt_maximum floating b a" for a b
    by (cases a; cases b) (auto simp: floating_def)
  show "dt_absolute floating (dt_subtract floating a b)
      = dt_absolute floating (dt_subtract floating b a)" for a b
    by (cases a; cases b) (simp_all add: floating_def abs_minus_commute)
qed

subsection \<open>Where the dtype computes the formula exactly\<close>

lemma max_relative_error_exact:
  assumes f: "faithful dt"
    and wf: "well_formed x" "well_formed y" "shape x = shape y" and ne: "data x \<noteq> []"
    and ex: "\<And>i. i < length (data x) \<Longrightarrow> exact_at dt (data x ! i) (data y ! i)"
  shows "\<exists>r. max_relative_error dt x y = Inr r \<and> dt_isfinite dt r
          \<and> dt_value dt r
              = Max ((\<lambda>i. rel_err (dt_value dt (data x ! i)) (dt_value dt (data y ! i)))
                     ` {..<length (data x)})"
proof -
  let ?pe = "\<lambda>i. pointwise_error dt (data x ! i) (data y ! i)"
  let ?n = "length (data x)"
  let ?E = "\<lparr>shape = shape x, data = map2 (pointwise_error dt) (data x) (data y)\<rparr>"
  have len: "length (data x) = length (data y)"
    using wf by (simp add: well_formed_def)
  have mre: "max_relative_error dt x y = np_max dt ?E"
    by (rule max_relative_error_same_shape [OF wf])
  have sE: "set (data ?E) = ?pe ` {..<?n}"
    by (simp only: ndarray.select_convs set_map2_conv_image [OF len])
  have nE: "data ?E \<noteq> []"
    using ne len by (cases "data x"; cases "data y") simp_all
  have pe: "dt_isfinite dt (?pe i)
      \<and> dt_value dt (?pe i) = rel_err (dt_value dt (data x ! i)) (dt_value dt (data y ! i))"
    if "i < ?n" for i
    using ex [OF that] unfolding exact_at_def by blast
  have "dt_isfinite dt u" if "u \<in> set (data ?E)" for u
    using that pe unfolding sE by blast
  from np_max_finite [OF f nE this]
  obtain r where r: "np_max dt ?E = Inr r" "dt_isfinite dt r"
      "dt_value dt r = Max (dt_value dt ` set (data ?E))"
    by blast
  have "dt_value dt ` set (data ?E)
      = (\<lambda>i. rel_err (dt_value dt (data x ! i)) (dt_value dt (data y ! i))) ` {..<?n}"
    unfolding sE image_image by (rule image_cong) (simp_all add: pe)
  then show ?thesis
    using r unfolding mre by simp
qed

subsection \<open>What \<^verbatim>\<open>max_relative_error\<close> returns\<close>





text \<open>
  Claim C3, as amended. For two well-formed arrays of equal shape and of one dtype, with
  at least one element, all of whose elements are finite, and that are equal elementwise,
  \<open>max_relative_error\<close> returns zero. (That the elements are \<open>\<ge> 0\<close> is not needed.)
\<close>

theorem max_relative_error_equal_arrays:
  assumes "faithful dt"
    and "well_formed a" "well_formed b" "shape a = shape b"
    and "data a \<noteq> []"
    and "\<forall>v\<in>set (data a). dt_isfinite dt v"
    and "data a = data b"
  shows "\<exists>r. max_relative_error dt a b = Inr r \<and> dt_isfinite dt r \<and> dt_value dt r = 0"
proof -
  let ?E = "\<lparr>shape = shape a, data = map2 (pointwise_error dt) (data a) (data b)\<rparr>"
  have mre: "max_relative_error dt a b = np_max dt ?E"
    by (rule max_relative_error_same_shape [OF assms(2-4)])
  have dE: "data ?E = map (\<lambda>v. pointwise_error dt v v) (data a)"
    by (simp add: assms(7) [symmetric] zip_same_conv_map)
  have ne: "data ?E \<noteq> []"
    using assms(5,7) by simp
  have el: "dt_isfinite dt u \<and> dt_value dt u = 0" if u: "u \<in> set (data ?E)" for u
  proof -
    obtain v where v: "v \<in> set (data a)" "u = pointwise_error dt v v"
      using u unfolding dE by auto
    have fv: "dt_isfinite dt v"
      using assms(6) v(1) by blast
    show ?thesis
      unfolding v(2)
      using pointwise_errors_finite(1,3) [OF assms(1) fv fv faithful_self(1) [OF assms(1) fv]]
        faithful_self(2) [OF assms(1) fv]
      by blast
  qed
  from np_max_finite [OF assms(1) ne] el
  obtain r where "np_max dt ?E = Inr r" "r \<in> set (data ?E)"
    by blast
  then show ?thesis
    using el unfolding mre by blast
qed

theorem max_relative_error_equal_arrays_witness:
  "faithful floating
   \<and> max_relative_error floating \<lparr>shape = [2], data = [Finite 0, Finite 5]\<rparr>
        \<lparr>shape = [2], data = [Finite 0, Finite 5]\<rparr> = Inr (Finite 0)"
proof -
  let ?a = "\<lparr>shape = [2], data = [Finite 0, Finite 5]\<rparr>"
  have "well_formed ?a" "shape ?a = shape ?a" "data ?a \<noteq> []"
    "\<forall>v\<in>set (data ?a). dt_isfinite floating v" "data ?a = data ?a"
    by (simp_all add: well_formed_def floating_def)
  from max_relative_error_equal_arrays [OF faithful_floating this(1) this(1) this(2-5)]
  obtain r where r: "max_relative_error floating ?a ?a = Inr r" "dt_isfinite floating r"
      "dt_value floating r = 0"
    by blast
  then have "r = Finite 0"
    by (cases r) (simp_all add: floating_def)
  then show ?thesis
    using r(1) faithful_floating by simp
qed

text \<open>
  The claim as it is written fails on two equal zero-size arrays (vacuously with all
  elements \<open>\<ge> 0\<close>), where the call raises \<^verbatim>\<open>ValueError\<close>, and on the floating-point arrays
  \<open>[inf]\<close> and \<open>[inf]\<close>, where \<open>inf - inf\<close> is \<open>nan\<close> and the call returns \<open>nan\<close>.
\<close>

theorem max_relative_error_equal_arrays_refuted:
  "max_relative_error floating \<lparr>shape = [0], data = []\<rparr> \<lparr>shape = [0], data = []\<rparr> = Inl ValueError
   \<and> dt_le floating (Finite 0) PosInf
   \<and> max_relative_error floating \<lparr>shape = [1], data = [PosInf]\<rparr> \<lparr>shape = [1], data = [PosInf]\<rparr>
       = Inr NaN"
proof (intro conjI)
  show "max_relative_error floating \<lparr>shape = [0], data = []\<rparr> \<lparr>shape = [0], data = []\<rparr>
      = Inl ValueError"
    by (rule max_relative_error_empty)
  show "dt_le floating (Finite 0) PosInf"
    by (simp add: floating_def)
  show "max_relative_error floating \<lparr>shape = [1], data = [PosInf]\<rparr> \<lparr>shape = [1], data = [PosInf]\<rparr>
      = Inr NaN"
    by code_simp
qed



text \<open>
  Claim C10, as amended. For well-formed arrays of equal shape and of one dtype, with at
  least one element, whose elements are finite and whose absolute differences
  \<^verbatim>\<open>abs(x[i]-y[i])\<close> are finite and not negative (no overflow of \<^verbatim>\<open>abs\<close>),
  \<open>max_relative_error\<close> returns a finite value \<open>\<ge> 0\<close>. When moreover every element of
  both arrays is \<open>\<le> 1\<close>, the clamped denominator is 1 at every position and the value
  returned is \<^verbatim>\<open>np.max(np.abs(x-y))\<close>; where the differences are computed exactly (no
  wrap-around), that is the largest absolute difference \<open>|x[i] - y[i]|\<close>.
\<close>

theorem max_relative_error_nonneg:
  assumes "faithful dt"
    and "well_formed x" "well_formed y" "shape x = shape y" and "data x \<noteq> []"
    and "\<forall>i<length (data x). sound_difference dt (data x ! i) (data y ! i)"
  shows "\<exists>r. max_relative_error dt x y = Inr r \<and> dt_isfinite dt r \<and> 0 \<le> dt_value dt r
    \<and> ((\<forall>v\<in>set (data x) \<union> set (data y). dt_value dt v \<le> 1) \<longrightarrow>
          and_then (np_maximum dt x y) (\<lambda>den. np_maximum dt den (scalar (dt_one dt)))
             = Inr \<lparr>shape = shape x, data = replicate (length (data x)) (dt_one dt)\<rparr>
          \<and> max_relative_error dt x y
              = and_then (np_subtract dt x y) (\<lambda>d. np_max dt (np_abs dt d))
          \<and> ((\<forall>i<length (data x). exact_difference dt (data x ! i) (data y ! i)) \<longrightarrow>
               dt_value dt r
                 = Max ((\<lambda>i. \<bar>dt_value dt (data x ! i) - dt_value dt (data y ! i)\<bar>)
                        ` {..<length (data x)})))"
proof -
  let ?pe = "\<lambda>i. pointwise_error dt (data x ! i) (data y ! i)"
  let ?ad = "\<lambda>i. dt_absolute dt (dt_subtract dt (data x ! i) (data y ! i))"
  let ?n = "length (data x)"
  let ?E = "\<lparr>shape = shape x, data = map2 (pointwise_error dt) (data x) (data y)\<rparr>"
  note f = assms(1)
  have len: "length (data x) = length (data y)"
    using assms by (simp add: well_formed_def)
  have mre: "max_relative_error dt x y = np_max dt ?E"
    by (rule max_relative_error_same_shape [OF assms(2-4)])
  have dE: "data ?E = map ?pe [0..<?n]"
    by (simp add: map2_conv_nth [OF len])
  have sE: "set (data ?E) = ?pe ` {..<?n}"
    by (simp only: ndarray.select_convs set_map2_conv_image [OF len])
  have ne: "data ?E \<noteq> []"
    using assms(5) len by (cases "data x"; cases "data y") simp_all
  have xd: "dt_isfinite dt (data x ! i)" "dt_isfinite dt (data y ! i)"
      "dt_isfinite dt (?ad i)" "0 \<le> dt_value dt (?ad i)"
    if "i < ?n" for i
    using assms(6) that unfolding sound_difference_def by blast+
  have pe: "dt_isfinite dt (?pe i) \<and> 0 \<le> dt_value dt (?pe i)" if i: "i < ?n" for i
    using pointwise_errors_finite(1,2) [OF f xd(1-3) [OF i]] xd(4) [OF i] by simp
  have fin: "dt_isfinite dt u" if "u \<in> set (data ?E)" for u
    using that pe unfolding sE by blast
  from np_max_finite [OF f ne fin]
  obtain r where r: "np_max dt ?E = Inr r" "r \<in> set (data ?E)" "dt_isfinite dt r"
      "dt_value dt r = Max (dt_value dt ` set (data ?E))"
    by blast
  have nonneg: "0 \<le> dt_value dt r"
    using r(2) pe unfolding sE by blast
  have small: "and_then (np_maximum dt x y) (\<lambda>den. np_maximum dt den (scalar (dt_one dt)))
             = Inr \<lparr>shape = shape x, data = replicate ?n (dt_one dt)\<rparr>
          \<and> max_relative_error dt x y
              = and_then (np_subtract dt x y) (\<lambda>d. np_max dt (np_abs dt d))
          \<and> ((\<forall>i<?n. exact_difference dt (data x ! i) (data y ! i)) \<longrightarrow>
               dt_value dt r
                 = Max ((\<lambda>i. \<bar>dt_value dt (data x ! i) - dt_value dt (data y ! i)\<bar>) ` {..<?n}))"
    if le: "\<forall>v\<in>set (data x) \<union> set (data y). dt_value dt v \<le> 1"
  proof (intro conjI impI)
    have le1: "dt_value dt (data x ! i) \<le> 1" "dt_value dt (data y ! i) \<le> 1" if "i < ?n" for i
      using le that len by (simp_all add: nth_mem)
    have "map2 (\<lambda>a b. dt_maximum dt (dt_maximum dt a b) (dt_one dt)) (data x) (data y)
        = map (\<lambda>i. dt_maximum dt (dt_maximum dt (data x ! i) (data y ! i)) (dt_one dt)) [0..<?n]"
      by (rule map2_conv_nth [OF len])
    also have "\<dots> = map (\<lambda>i. dt_one dt) [0..<?n]"
      by (rule map_cong [OF refl]) (simp add: denominator_small [OF f xd(1,2) le1])
    also have "\<dots> = replicate ?n (dt_one dt)"
      by (simp add: map_replicate_const)
    finally have den: "map2 (\<lambda>a b. dt_maximum dt (dt_maximum dt a b) (dt_one dt)) (data x) (data y)
        = replicate ?n (dt_one dt)" .
    show "and_then (np_maximum dt x y) (\<lambda>den. np_maximum dt den (scalar (dt_one dt)))
        = Inr \<lparr>shape = shape x, data = replicate ?n (dt_one dt)\<rparr>"
      by (simp only: clamped_denominator [OF assms(2-4)] den)
    have pe_ad: "?pe i = ?ad i" if i: "i < ?n" for i
      by (rule pointwise_error_small [OF f xd(1,2) [OF i] le1 [OF i]])
    have "data ?E = map ?ad [0..<?n]"
      unfolding dE by (rule map_cong [OF refl]) (simp add: pe_ad)
    also have "\<dots> = map (dt_absolute dt) (map2 (dt_subtract dt) (data x) (data y))"
      by (simp add: map2_conv_nth [OF len] comp_def)
    finally have "data ?E = map (dt_absolute dt) (map2 (dt_subtract dt) (data x) (data y))" .
    then have eqd: "map2 (pointwise_error dt) (data x) (data y)
        = map (dt_absolute dt) (map2 (dt_subtract dt) (data x) (data y))"
      by (simp only: ndarray.select_convs)
    have "np_max dt ?E
        = np_max dt (np_abs dt \<lparr>shape = shape x, data = map2 (dt_subtract dt) (data x) (data y)\<rparr>)"
      by (simp only: np_max_def np_abs_def ndarray.select_convs eqd)
    moreover have "np_subtract dt x y
        = Inr \<lparr>shape = shape x, data = map2 (dt_subtract dt) (data x) (data y)\<rparr>"
      using assms(2-4) by (simp add: np_subtract_def ufunc2_same_shape)
    ultimately show "max_relative_error dt x y
        = and_then (np_subtract dt x y) (\<lambda>d. np_max dt (np_abs dt d))"
      by (simp only: mre and_then_Inr)
    show "dt_value dt r
        = Max ((\<lambda>i. \<bar>dt_value dt (data x ! i) - dt_value dt (data y ! i)\<bar>) ` {..<?n})"
      if ex: "\<forall>i<?n. exact_difference dt (data x ! i) (data y ! i)"
    proof -
      have "dt_value dt (?pe i) = \<bar>dt_value dt (data x ! i) - dt_value dt (data y ! i)\<bar>"
        if i: "i < ?n" for i
        using ex i unfolding exact_difference_def pe_ad [OF i] by blast
      then have "dt_value dt ` set (data ?E)
          = (\<lambda>i. \<bar>dt_value dt (data x ! i) - dt_value dt (data y ! i)\<bar>) ` {..<?n}"
        unfolding sE image_image by (intro image_cong refl) simp
      then show ?thesis
        using r(4) by (simp only:)
    qed
  qed
  show ?thesis
    using r(1,3) nonneg small unfolding mre by blast
qed

theorem max_relative_error_nonneg_witness:
  "faithful floating
   \<and> sound_difference floating (Finite (- 3)) (Finite (- 1))
   \<and> sound_difference floating (Finite 1) (Finite 0)
   \<and> exact_difference floating (Finite (- 3)) (Finite (- 1))
   \<and> exact_difference floating (Finite 1) (Finite 0)
   \<and> max_relative_error floating \<lparr>shape = [2], data = [Finite (- 3), Finite 1]\<rparr>
        \<lparr>shape = [2], data = [Finite (- 1), Finite 0]\<rparr> = Inr (Finite 2)
   \<and> and_then (np_maximum floating \<lparr>shape = [2], data = [Finite (- 3), Finite 1]\<rparr>
                 \<lparr>shape = [2], data = [Finite (- 1), Finite 0]\<rparr>)
        (\<lambda>den. np_maximum floating den (scalar (dt_one floating)))
       = Inr \<lparr>shape = [2], data = [Finite 1, Finite 1]\<rparr>
   \<and> (2 :: rat) = Max {\<bar>- 3 - (- 1)\<bar>, \<bar>1 - 0\<bar>}"
proof -
  let ?x = "\<lparr>shape = [2], data = [Finite (- 3), Finite 1]\<rparr>"
  let ?y = "\<lparr>shape = [2], data = [Finite (- 1), Finite 0]\<rparr>"
  have wf: "well_formed ?x" "well_formed ?y" "shape ?x = shape ?y" "data ?x \<noteq> []"
    by (simp_all add: well_formed_def)
  have so: "\<forall>i<length (data ?x). sound_difference floating (data ?x ! i) (data ?y ! i)"
    by (simp add: less_Suc_eq sound_difference_floating)
  have le: "\<forall>v\<in>set (data ?x) \<union> set (data ?y). dt_value floating v \<le> 1"
    by (simp add: floating_def)
  from max_relative_error_nonneg [OF faithful_floating wf so] le
  obtain r where r: "max_relative_error floating ?x ?y = Inr r" "0 \<le> dt_value floating r"
      "and_then (np_maximum floating ?x ?y)
          (\<lambda>den. np_maximum floating den (scalar (dt_one floating)))
         = Inr \<lparr>shape = shape ?x, data = replicate (length (data ?x)) (dt_one floating)\<rparr>"
    by blast
  have v: "max_relative_error floating ?x ?y = Inr (Finite 2)"
    by code_simp
  have "replicate (length (data ?x)) (dt_one floating) = [Finite 1, Finite 1]"
    by (simp add: floating_def)
  then show ?thesis
    using r(3) v faithful_floating
    by (simp add: exact_difference_floating sound_difference_floating)
qed

text \<open>
  The claim as it is written fails on two zero-size arrays, where the call raises
  \<^verbatim>\<open>ValueError\<close> and returns no value; on the signed 8-bit arrays \<open>[-128]\<close> and \<open>[0]\<close>,
  where \<^verbatim>\<open>np.abs\<close> overflows and the call returns \<open>-128\<close>; on the floating-point arrays
  \<open>[-inf]\<close> and \<open>[-inf]\<close>, where it returns \<open>nan\<close>, which is not \<^verbatim>\<open>>= 0\<close>; and on the
  unsigned 8-bit arrays \<open>[0]\<close> and \<open>[1]\<close>, all \<open>\<le> 1\<close>, where \<open>0 - 1\<close> wraps around and the
  call returns 255, not the absolute difference 1.
\<close>

theorem max_relative_error_nonneg_refuted:
  "max_relative_error floating \<lparr>shape = [0], data = []\<rparr> \<lparr>shape = [0], data = []\<rparr> = Inl ValueError
   \<and> max_relative_error signed_int \<lparr>shape = [1], data = [- 128 :: 8 word]\<rparr> \<lparr>shape = [1], data = [0]\<rparr>
       = Inr (- 128)
   \<and> dt_value signed_int (- 128 :: 8 word) = - 128
   \<and> max_relative_error floating \<lparr>shape = [1], data = [NegInf]\<rparr> \<lparr>shape = [1], data = [NegInf]\<rparr>
       = Inr NaN
   \<and> \<not> dt_le floating (Finite 0) NaN
   \<and> max_relative_error unsigned_int \<lparr>shape = [1], data = [0 :: 8 word]\<rparr> \<lparr>shape = [1], data = [1]\<rparr>
       = Inr 255
   \<and> dt_value unsigned_int (255 :: 8 word) = 255
   \<and> \<bar>dt_value unsigned_int (0 :: 8 word) - dt_value unsigned_int (1 :: 8 word)\<bar> = 1"
proof (intro conjI)
  show "max_relative_error floating \<lparr>shape = [0], data = []\<rparr> \<lparr>shape = [0], data = []\<rparr>
      = Inl ValueError"
    by (rule max_relative_error_empty)
  show "max_relative_error signed_int \<lparr>shape = [1], data = [- 128 :: 8 word]\<rparr>
      \<lparr>shape = [1], data = [0]\<rparr> = Inr (- 128)"
    by code_simp
  show "dt_value signed_int (- 128 :: 8 word) = - 128"
    by (simp add: signed_int_def)
  show "max_relative_error floating \<lparr>shape = [1], data = [NegInf]\<rparr> \<lparr>shape = [1], data = [NegInf]\<rparr>
      = Inr NaN"
    by code_simp
  show "\<not> dt_le floating (Finite 0) NaN"
    by (simp add: floating_def)
  show "max_relative_error unsigned_int \<lparr>shape = [1], data = [0 :: 8 word]\<rparr>
      \<lparr>shape = [1], data = [1]\<rparr> = Inr 255"
    by code_simp
  show "dt_value unsigned_int (255 :: 8 word) = 255"
    by (simp add: unsigned_int_def)
  show "\<bar>dt_value unsigned_int (0 :: 8 word) - dt_value unsigned_int (1 :: 8 word)\<bar> = 1"
    by (simp add: unsigned_int_def)
qed

section \<open>Properties of the name translation\<close>

lemma str_replace_char:
  "str_replace [c] new s = concat (map (\<lambda>x. if x = c then new else [x]) s)"
  by (induction s) simp_all

lemma coreml_name_chars:
  "coreml_name s =
     concat (map (\<lambda>x. if x = CHR '':'' \<or> x = CHR ''/'' then ''__'' else [x]) s)"
  unfolding coreml_name_def str_replace_char
  by (induction s) simp_all

text \<open>
  Claim C9. The CoreML feature name of a TensorFlow tensor name is the name with every
  \<open>:\<close> and every \<open>/\<close> replaced by \<open>__\<close> (the two successive \<^verbatim>\<open>replace\<close> calls amount
  to one simultaneous replacement); the input name and each output name go through this
  same function, giving \<^verbatim>\<open>Preprocessor__sub__0\<close>, \<^verbatim>\<open>concat__0\<close> and \<^verbatim>\<open>concat_1__0\<close>.
\<close>

theorem coreml_name_replaces_colon_and_slash:
  "coreml_name s =
     concat (map (\<lambda>x. if x = CHR '':'' \<or> x = CHR ''/'' then ''__'' else [x]) s)
   \<and> coreml_input_name = coreml_name tf_input_name
   \<and> coreml_output_names = map coreml_name tf_output_names
   \<and> coreml_input_name = ''Preprocessor__sub__0''
   \<and> coreml_output_names = [''concat__0'', ''concat_1__0'']"
  by (simp add: coreml_name_chars coreml_input_name_def coreml_output_names_def
      tf_input_name_def tf_output_names_def)

theorem coreml_name_replaces_colon_and_slash_witness:
  "coreml_name ''scope/sub/op:10'' = ''scope__sub__op__10''"
  using coreml_name_replaces_colon_and_slash [of "''scope/sub/op:10''"]
  by simp

section \<open>Properties of the comparison of the two runtimes' outputs\<close>

lemma block_index_less: "j < n \<Longrightarrow> i < m \<Longrightarrow> j * m + i < n * (m::nat)"
proof -
  assume "j < n" "i < m"
  then have "Suc j * m \<le> n * m"
    by (intro mult_le_mono1) simp
  with \<open>i < m\<close> show ?thesis by simp
qed

lemma length_concat_blocks:
  "length (concat (map (\<lambda>j. map (f j) [0..<m]) [0..<n])) = n * m"
  by (induction n) simp_all

lemma nth_concat_blocks:
  "j < n \<Longrightarrow> i < m \<Longrightarrow> concat (map (\<lambda>j. map (f j) [0..<m]) [0..<n]) ! (j * m + i) = f j i"
proof (induction n)
  case 0
  then show ?case by simp
next
  case (Suc n)
  show ?case
  proof (cases "j < n")
    case True
    then have "j * m + i < n * m"
      using Suc.prems(2) by (rule block_index_less)
    then show ?thesis
      using Suc.IH [OF True Suc.prems(2)] by (simp add: nth_append length_concat_blocks)
  next
    case False
    then have "j = n" using Suc.prems(1) by simp
    then show ?thesis
      using Suc.prems(2) by (simp add: nth_append length_concat_blocks)
  qed
qed

lemma prod_list_squeeze: "prod_list (filter (\<lambda>d. d \<noteq> 1) s) = prod_list s"
  by (induction s) simp_all

lemma well_formed_squeeze: "well_formed a \<Longrightarrow> well_formed (squeeze a)"
  using prod_list_squeeze [of "shape a"] by (simp add: well_formed_def squeeze_def)

lemma image_blocks:
  fixes F :: "nat \<Rightarrow> 'b"
  assumes "\<And>j i. j < n \<Longrightarrow> i < m \<Longrightarrow> F (j * m + i) = G j i"
  shows "F ` {..<n * m} = (\<lambda>(j, i). G j i) ` ({..<n} \<times> {..<m})"
proof (intro equalityI subsetI)
  fix v assume "v \<in> F ` {..<n * m}"
  then obtain k where k: "k < n * m" "v = F k" by auto
  then have m: "0 < m" by (cases m) simp_all
  have "k div m < n"
    using k(1) m by (simp add: less_mult_imp_div_less)
  moreover have "k mod m < m" using m by simp
  moreover have "F k = G (k div m) (k mod m)"
    using assms [OF \<open>k div m < n\<close> \<open>k mod m < m\<close>] by simp
  ultimately show "v \<in> (\<lambda>(j, i). G j i) ` ({..<n} \<times> {..<m})"
    using k(2) by (intro image_eqI [where x = "(k div m, k mod m)"]) simp_all
next
  fix v assume "v \<in> (\<lambda>(j, i). G j i) ` ({..<n} \<times> {..<m})"
  then obtain j i where ji: "j < n" "i < m" "v = G j i" by auto
  then have "v = F (j * m + i)" using assms by simp
  moreover have "j * m + i < n * m" using ji by (intro block_index_less)
  ultimately show "v \<in> F ` {..<n * m}" by blast
qed

lemma transposed_index:
  assumes "k < n * (m::nat)"
  shows "k div m < n" "k mod m < m" "k div m * m + k mod m = k"
proof -
  have m: "0 < m"
    using assms by (cases m) simp_all
  show "k div m < n"
    using assms m by (simp add: less_mult_imp_div_less)
  show "k mod m < m"
    using m by simp
  show "k div m * m + k mod m = k"
    by simp
qed

lemma compare_transposed:
  assumes wf_c: "well_formed coreml" and wf_t: "well_formed tf"
    and sq_t: "filter (\<lambda>d. d \<noteq> 1) (shape tf) = [m, n]"
    and sq_c: "filter (\<lambda>d. d \<noteq> 1) (shape coreml) = [n, m]"
  defines "t \<equiv> \<lparr>shape = [n, m],
      data = concat (map (\<lambda>j. map (\<lambda>i. data tf ! (i * n + j)) [0..<m]) [0..<n])\<rparr>"
  shows "np_transpose_1_0 (squeeze tf) = Inr t"
    and "well_formed t"
    and "shape t = shape (squeeze coreml)"
    and "\<forall>j<n. \<forall>i<m. data t ! (j * m + i) = data tf ! (i * n + j)"
    and "length (data coreml) = n * m" "length (data t) = n * m"
    and "max_relative_error dt (squeeze coreml) t
      = np_max dt \<lparr>shape = [n, m],
          data = map (\<lambda>k. pointwise_error dt (data coreml ! k) (data tf ! (k mod m * n + k div m)))
                   [0..<n * m]\<rparr>"
proof -
  show tr: "np_transpose_1_0 (squeeze tf) = Inr t"
    using sq_t by (simp add: np_transpose_1_0_def squeeze_def t_def)
  show wf: "well_formed t"
    by (simp add: well_formed_def t_def length_concat_blocks)
  show sh: "shape t = shape (squeeze coreml)"
    using sq_c by (simp add: squeeze_def t_def)
  show nth: "\<forall>j<n. \<forall>i<m. data t ! (j * m + i) = data tf ! (i * n + j)"
    by (simp add: t_def nth_concat_blocks)
  show len_c: "length (data coreml) = n * m"
    using wf_c prod_list_squeeze [of "shape coreml"] sq_c by (simp add: well_formed_def)
  show len_t: "length (data t) = n * m"
    by (simp add: t_def length_concat_blocks)
  have "max_relative_error dt (squeeze coreml) t
      = np_max dt \<lparr>shape = shape (squeeze coreml),
                    data = map2 (pointwise_error dt) (data coreml) (data t)\<rparr>"
    using max_relative_error_same_shape [OF well_formed_squeeze [OF wf_c] wf sh [symmetric]]
    by (simp add: squeeze_def)
  moreover have "shape (squeeze coreml) = [n, m]"
    using sq_c by (simp add: squeeze_def)
  moreover have "map2 (pointwise_error dt) (data coreml) (data t)
      = map (\<lambda>k. pointwise_error dt (data coreml ! k) (data t ! k)) [0..<n * m]"
    using map2_conv_nth [of "data coreml" "data t" "pointwise_error dt"]
    by (simp add: len_c len_t)
  moreover have "map (\<lambda>k. pointwise_error dt (data coreml ! k) (data t ! k)) [0..<n * m]
      = map (\<lambda>k. pointwise_error dt (data coreml ! k) (data tf ! (k mod m * n + k div m)))
          [0..<n * m]"
  proof (rule map_cong [OF refl])
    fix k assume "k \<in> set [0..<n * m]"
    then have k: "k < n * m" by simp
    have "data t ! (k div m * m + k mod m) = data tf ! (k mod m * n + k div m)"
      using nth transposed_index(1,2) [OF k] by blast
    then show "pointwise_error dt (data coreml ! k) (data t ! k)
        = pointwise_error dt (data coreml ! k) (data tf ! (k mod m * n + k div m))"
      by (simp only: transposed_index(3) [OF k])
  qed
  ultimately show "max_relative_error dt (squeeze coreml) t
      = np_max dt \<lparr>shape = [n, m],
          data = map (\<lambda>k. pointwise_error dt (data coreml ! k) (data tf ! (k mod m * n + k div m)))
                   [0..<n * m]\<rparr>"
    by (simp only:)
qed

text \<open>
  Claim C5. When the squeezed TensorFlow output has two axes \<open>(m, n)\<close> and the squeezed
  CoreML output has the axes \<open>(n, m)\<close>, the second argument of \<open>max_relative_error\<close> is
  the TensorFlow output with its two axes swapped: it has the shape of the squeezed CoreML
  output, and its element \<open>(j, i)\<close> is the TensorFlow element \<open>(i, j)\<close>. So the error
  reported is the reduction, over the positions \<open>k = j * m + i\<close> of the CoreML layout, of
  the pointwise error between the CoreML element \<open>(j, i)\<close> and the TensorFlow element
  \<open>(i, j)\<close>; where the dtype computes the formula exactly, it is the maximum over the
  positions \<open>(j, i)\<close> of the relative error between these two numbers; and where there is
  no position, \<^verbatim>\<open>np.max\<close> raises \<^verbatim>\<open>ValueError\<close>.
\<close>

theorem tf_outputs_transposed_before_comparison:
  assumes "well_formed coreml" and "well_formed tf"
    and "shape (squeeze tf) = [m, n]"
    and "shape (squeeze coreml) = [n, m]"
  shows "\<exists>t. np_transpose_1_0 (squeeze tf) = Inr t
      \<and> shape t = shape (squeeze coreml)
      \<and> (\<forall>j<n. \<forall>i<m. data t ! (j * m + i) = data tf ! (i * n + j))
      \<and> rel_error_box dt coreml tf = max_relative_error dt (squeeze coreml) t
      \<and> rel_error_score dt coreml tf = max_relative_error dt (squeeze coreml) t
      \<and> rel_error_box dt coreml tf
          = np_max dt \<lparr>shape = [n, m],
              data = map (\<lambda>k. pointwise_error dt (data coreml ! k)
                                 (data tf ! (k mod m * n + k div m))) [0..<n * m]\<rparr>
      \<and> (n * m = 0 \<longrightarrow> rel_error_box dt coreml tf = Inl ValueError)
      \<and> (n * m \<noteq> 0 \<and> faithful dt
           \<and> (\<forall>j<n. \<forall>i<m. exact_at dt (data coreml ! (j * m + i)) (data tf ! (i * n + j))) \<longrightarrow>
         (\<exists>r. rel_error_box dt coreml tf = Inr r \<and> dt_isfinite dt r
            \<and> dt_value dt r
                = Max ((\<lambda>(j, i). \<bar>dt_value dt (data coreml ! (j * m + i))
                                     - dt_value dt (data tf ! (i * n + j))\<bar>
                                  / max (max (dt_value dt (data coreml ! (j * m + i)))
                                             (dt_value dt (data tf ! (i * n + j)))) 1)
                       ` ({..<n} \<times> {..<m}))))"
proof -
  have sq_t: "filter (\<lambda>d. d \<noteq> 1) (shape tf) = [m, n]"
    using assms(3) by (simp add: squeeze_def)
  have sq_c: "filter (\<lambda>d. d \<noteq> 1) (shape coreml) = [n, m]"
    using assms(4) by (simp add: squeeze_def)
  define t where "t = \<lparr>shape = [n, m],
      data = concat (map (\<lambda>j. map (\<lambda>i. data tf ! (i * n + j)) [0..<m]) [0..<n])\<rparr>"
  note facts = compare_transposed [OF assms(1,2) sq_t sq_c, folded t_def]
  have box: "rel_error_box dt coreml tf = max_relative_error dt (squeeze coreml) t"
    by (simp add: rel_error_box_def facts(1))
  have score: "rel_error_score dt coreml tf = max_relative_error dt (squeeze coreml) t"
    by (simp add: rel_error_score_def facts(1))
  have red: "rel_error_box dt coreml tf
      = np_max dt \<lparr>shape = [n, m],
          data = map (\<lambda>k. pointwise_error dt (data coreml ! k)
                             (data tf ! (k mod m * n + k div m))) [0..<n * m]\<rparr>"
    by (simp only: box facts(7))
  have empty: "rel_error_box dt coreml tf = Inl ValueError" if "n * m = 0"
    using that by (simp only: red) (simp add: np_max_def)
  have exact: "\<exists>r. rel_error_box dt coreml tf = Inr r \<and> dt_isfinite dt r
      \<and> dt_value dt r
          = Max ((\<lambda>(j, i). \<bar>dt_value dt (data coreml ! (j * m + i))
                               - dt_value dt (data tf ! (i * n + j))\<bar>
                            / max (max (dt_value dt (data coreml ! (j * m + i)))
                                       (dt_value dt (data tf ! (i * n + j)))) 1)
                 ` ({..<n} \<times> {..<m}))"
    if h: "n * m \<noteq> 0 \<and> faithful dt
           \<and> (\<forall>j<n. \<forall>i<m. exact_at dt (data coreml ! (j * m + i)) (data tf ! (i * n + j)))"
  proof -
    have f: "faithful dt" and nz: "n * m \<noteq> 0"
      using h by blast+
    have len: "length (data (squeeze coreml)) = n * m" "data (squeeze coreml) = data coreml"
      by (simp_all add: squeeze_def facts(5))
    have ne: "data (squeeze coreml) \<noteq> []"
      using nz len(1) by (cases "data (squeeze coreml)") simp_all
    have ex: "exact_at dt (data (squeeze coreml) ! k) (data t ! k)"
      if "k < length (data (squeeze coreml))" for k
    proof -
      have k: "k < n * m"
        using that len(1) by simp
      have a: "exact_at dt (data coreml ! (k div m * m + k mod m))
          (data tf ! (k mod m * n + k div m))"
        using h transposed_index(1,2) [OF k] by blast
      have b: "data t ! (k div m * m + k mod m) = data tf ! (k mod m * n + k div m)"
        using facts(4) transposed_index(1,2) [OF k] by blast
      have "exact_at dt (data coreml ! (k div m * m + k mod m))
          (data t ! (k div m * m + k mod m))"
        by (simp only: b a)
      then show ?thesis
        by (simp only: transposed_index(3) [OF k] len(2))
    qed
    have "\<exists>r. max_relative_error dt (squeeze coreml) t = Inr r \<and> dt_isfinite dt r
        \<and> dt_value dt r
            = Max ((\<lambda>k. rel_err (dt_value dt (data (squeeze coreml) ! k)) (dt_value dt (data t ! k)))
                   ` {..<length (data (squeeze coreml))})"
      by (rule max_relative_error_exact
            [OF f well_formed_squeeze [OF assms(1)] facts(2) facts(3) [symmetric] ne])
        (rule ex)
    then obtain r where r: "max_relative_error dt (squeeze coreml) t = Inr r" "dt_isfinite dt r"
        "dt_value dt r
          = Max ((\<lambda>k. rel_err (dt_value dt (data coreml ! k)) (dt_value dt (data t ! k)))
                 ` {..<n * m})"
      unfolding len(1) unfolding len(2) by blast
    have "(\<lambda>k. rel_err (dt_value dt (data coreml ! k)) (dt_value dt (data t ! k))) ` {..<n * m}
        = (\<lambda>(j, i). rel_err (dt_value dt (data coreml ! (j * m + i)))
                       (dt_value dt (data tf ! (i * n + j)))) ` ({..<n} \<times> {..<m})"
      by (rule image_blocks) (simp add: facts(4))
    then show ?thesis
      using r unfolding box rel_err_def by simp
  qed
  show ?thesis
  proof (intro exI [of _ t] conjI)
    show "np_transpose_1_0 (squeeze tf) = Inr t" by (rule facts(1))
    show "shape t = shape (squeeze coreml)" by (rule facts(3))
    show "\<forall>j<n. \<forall>i<m. data t ! (j * m + i) = data tf ! (i * n + j)" by (rule facts(4))
    show "rel_error_box dt coreml tf = max_relative_error dt (squeeze coreml) t" by (rule box)
    show "rel_error_score dt coreml tf = max_relative_error dt (squeeze coreml) t" by (rule score)
    show "rel_error_box dt coreml tf
      = np_max dt \<lparr>shape = [n, m],
          data = map (\<lambda>k. pointwise_error dt (data coreml ! k)
                             (data tf ! (k mod m * n + k div m))) [0..<n * m]\<rparr>" by (rule red)
    show "n * m = 0 \<longrightarrow> rel_error_box dt coreml tf = Inl ValueError"
      using empty by blast
    show "n * m \<noteq> 0 \<and> faithful dt
           \<and> (\<forall>j<n. \<forall>i<m. exact_at dt (data coreml ! (j * m + i)) (data tf ! (i * n + j))) \<longrightarrow>
         (\<exists>r. rel_error_box dt coreml tf = Inr r \<and> dt_isfinite dt r
            \<and> dt_value dt r
                = Max ((\<lambda>(j, i). \<bar>dt_value dt (data coreml ! (j * m + i))
                                     - dt_value dt (data tf ! (i * n + j))\<bar>
                                  / max (max (dt_value dt (data coreml ! (j * m + i)))
                                             (dt_value dt (data tf ! (i * n + j)))) 1)
                       ` ({..<n} \<times> {..<m})))"
      using exact by blast
  qed
qed

theorem tf_outputs_transposed_before_comparison_witness:
  "shape (squeeze \<lparr>shape = [1, 2, 3], data = map Finite [1, 2, 3, 4, 5, 6]\<rparr>) = [2, 3]
   \<and> shape (squeeze \<lparr>shape = [1, 1, 3, 1, 2], data = map Finite [1, 4, 2, 5, 3, 8]\<rparr>) = [3, 2]
   \<and> np_transpose_1_0 (squeeze \<lparr>shape = [1, 2, 3], data = map Finite [1, 2, 3, 4, 5, 6]\<rparr>)
       = Inr \<lparr>shape = [3, 2], data = map Finite [1, 4, 2, 5, 3, 6]\<rparr>
   \<and> rel_error_box floating \<lparr>shape = [1, 1, 3, 1, 2], data = map Finite [1, 4, 2, 5, 3, 8]\<rparr>
         \<lparr>shape = [1, 2, 3], data = map Finite [1, 2, 3, 4, 5, 6]\<rparr> = Inr (Finite (1 / 4))"
proof -
  let ?tf = "\<lparr>shape = [1, 2, 3], data = map Finite [1, 2, 3, 4, 5, 6]\<rparr>"
  let ?c = "\<lparr>shape = [1, 1, 3, 1, 2], data = map Finite [1, 4, 2, 5, 3, 8]\<rparr>"
  have wf: "well_formed ?c" "well_formed ?tf"
    by (simp_all add: well_formed_def)
  have sh: "shape (squeeze ?tf) = [2, 3]" "shape (squeeze ?c) = [3, 2]"
    by (simp_all add: squeeze_def)
  have tr: "np_transpose_1_0 (squeeze ?tf)
      = Inr \<lparr>shape = [3, 2], data = map Finite [1, 4, 2, 5, 3, 6]\<rparr>"
    by code_simp
  have val: "max_relative_error floating (squeeze ?c)
      \<lparr>shape = [3, 2], data = map Finite [1, 4, 2, 5, 3, 6]\<rparr> = Inr (Finite (1 / 4))"
    by code_simp
  from tf_outputs_transposed_before_comparison [OF wf sh, of floating]
  obtain t where "np_transpose_1_0 (squeeze ?tf) = Inr t"
    and "rel_error_box floating ?c ?tf = max_relative_error floating (squeeze ?c) t"
    by blast
  with tr val have "rel_error_box floating ?c ?tf = Inr (Finite (1 / 4))"
    by simp
  with sh tr show ?thesis
    by simp
qed

section \<open>Properties of the script\<close>

lemma invoke_trace:
  "invoke l s st = (st', r) \<Longrightarrow>
     trace st' = trace st @ [(s, r)]
     \<and> r = (case perform l s (world st) of Inl e \<Rightarrow> Some e | Inr w \<Rightarrow> None)"
  by (auto simp: invoke_def split: sum.splits)

lemma run_all_append:
  "run_all (as @ bs) st =
     (case run_all as st of (st', None) \<Rightarrow> run_all bs st' | (st', Some e) \<Rightarrow> (st', Some e))"
  by (induction as arbitrary: st) (auto split: prod.splits option.splits)

lemma run_all_invokes_trace:
  "run_all (map (invoke l) ss) st = (st', r) \<Longrightarrow>
     \<exists>new. trace st' = trace st @ new \<and> map fst new = take (length new) ss
        \<and> (ss \<noteq> [] \<longrightarrow> new \<noteq> [])"
proof (induction ss arbitrary: st)
  case Nil
  then show ?case by simp
next
  case (Cons s ss)
  obtain st1 r1 where a: "invoke l s st = (st1, r1)" by (cases "invoke l s st")
  then have tr1: "trace st1 = trace st @ [(s, r1)]" by (simp add: invoke_trace)
  show ?case
  proof (cases r1)
    case (Some e)
    then have "st' = st1" using Cons.prems a by simp
    then show ?thesis using tr1 by (intro exI [of _ "[(s, r1)]"]) simp
  next
    case None
    then have "run_all (map (invoke l) ss) st1 = (st', r)" using Cons.prems a by simp
    from Cons.IH [OF this] obtain new where
      "trace st' = trace st1 @ new" "map fst new = take (length new) ss" by blast
    then show ?thesis using tr1 by (intro exI [of _ "(s, r1) # new"]) simp
  qed
qed

lemma download_and_extract_trace:
  "\<exists>r rest. trace (fst (download_and_extract l st))
       = trace st @ (UrlRetrieve mobilenet_ssd_url mobilenet_ssd_fpath, r) # rest
     \<and> (\<forall>x\<in>set rest. \<forall>p. fst x \<noteq> OsMakedirs p)"
proof -
  let ?ss = "[UrlRetrieve mobilenet_ssd_url mobilenet_ssd_fpath, ZipFileOpen mobilenet_ssd_fpath,
     ZipExtractAll example_dir, ZipClose]"
  have eq: "download_and_extract l = run_all (map (invoke l) ?ss)"
    by (simp add: download_and_extract_def)
  obtain st' r where run: "run_all (map (invoke l) ?ss) st = (st', r)"
    by (cases "run_all (map (invoke l) ?ss) st")
  from run_all_invokes_trace [OF run] obtain new where new:
    "trace st' = trace st @ new" "map fst new = take (length new) ?ss" "new \<noteq> []"
    by auto
  then obtain x rest where xr: "new = x # rest" by (cases new) auto
  have fst_x: "fst x = UrlRetrieve mobilenet_ssd_url mobilenet_ssd_fpath"
    using new(2) xr by simp
  have "set (map fst rest) \<subseteq> {ZipFileOpen mobilenet_ssd_fpath, ZipExtractAll example_dir, ZipClose}"
  proof -
    have "map fst rest = take (length rest) [ZipFileOpen mobilenet_ssd_fpath,
      ZipExtractAll example_dir, ZipClose]"
      using new(2) xr by simp
    then have "set (map fst rest) \<subseteq> set [ZipFileOpen mobilenet_ssd_fpath,
      ZipExtractAll example_dir, ZipClose]"
      by (metis set_take_subset)
    then show ?thesis by simp
  qed
  then have "\<forall>x\<in>set rest. \<forall>p. fst x \<noteq> OsMakedirs p"
    by auto
  moreover have "trace (fst (download_and_extract l st)) = trace st @ (fst x, snd x) # rest"
    using run new(1) xr by (simp add: eq)
  ultimately show ?thesis
    using fst_x by metis
qed

lemma acquisition_absent:
  assumes "\<not> os_path_exists l example_dir (world st)"
  shows "perform l (OsMakedirs example_dir) (world st) = Inl e \<Longrightarrow>
           acquisition l st = (st\<lparr>trace := trace st @ [(OsMakedirs example_dir, Some e)]\<rparr>, Some e)"
    and "perform l (OsMakedirs example_dir) (world st) = Inr w \<Longrightarrow>
           acquisition l st = download_and_extract l
             (st\<lparr>world := w, trace := trace st @ [(OsMakedirs example_dir, None)]\<rparr>)"
  using assms
  by (simp_all add: acquisition_def ensure_directory_def invoke_def split: prod.splits option.splits)

lemma acquisition_present:
  assumes "os_path_exists l example_dir (world st)"
  shows "acquisition l st = download_and_extract l st"
  using assms
  by (simp add: acquisition_def ensure_directory_def split: prod.splits option.splits)

text \<open>
  Claim C7. In the acquisition cell the directory is created if and only if it is
  absent. When \<^verbatim>\<open>os.path.exists\<close> answers no, \<^verbatim>\<open>os.makedirs\<close> is the first step; if it
  raises, the cell ends there with that exception; if it returns, the download is the
  next step and runs in the world that \<^verbatim>\<open>os.makedirs\<close> left. When
  \<^verbatim>\<open>os.path.exists\<close> answers yes, the download is the first step, it runs in the
  world as it was, and no \<^verbatim>\<open>os.makedirs\<close> is executed in the cell at all.
\<close>

theorem acquisition_creates_directory_iff_absent:
  "(\<not> os_path_exists l example_dir (world st) \<longrightarrow>
      (\<forall>e. perform l (OsMakedirs example_dir) (world st) = Inl e \<longrightarrow>
         acquisition l st
           = (st\<lparr>trace := trace st @ [(OsMakedirs example_dir, Some e)]\<rparr>, Some e))
      \<and> (\<forall>w. perform l (OsMakedirs example_dir) (world st) = Inr w \<longrightarrow>
         acquisition l st
           = download_and_extract l
               (st\<lparr>world := w, trace := trace st @ [(OsMakedirs example_dir, None)]\<rparr>)
         \<and> (\<exists>r rest. trace (fst (acquisition l st))
               = trace st @ (OsMakedirs example_dir, None)
                   # (UrlRetrieve mobilenet_ssd_url mobilenet_ssd_fpath, r) # rest)))
   \<and> (os_path_exists l example_dir (world st) \<longrightarrow>
        acquisition l st = download_and_extract l st
        \<and> (\<exists>r rest. trace (fst (acquisition l st))
               = trace st @ (UrlRetrieve mobilenet_ssd_url mobilenet_ssd_fpath, r) # rest
             \<and> (\<forall>x\<in>set rest. \<forall>p. fst x \<noteq> OsMakedirs p)))"
proof (intro conjI impI allI)
  fix e
  assume "\<not> os_path_exists l example_dir (world st)"
    and "perform l (OsMakedirs example_dir) (world st) = Inl e"
  then show "acquisition l st
      = (st\<lparr>trace := trace st @ [(OsMakedirs example_dir, Some e)]\<rparr>, Some e)"
    by (rule acquisition_absent(1))
next
  fix w
  assume a: "\<not> os_path_exists l example_dir (world st)"
    and p: "perform l (OsMakedirs example_dir) (world st) = Inr w"
  let ?st1 = "st\<lparr>world := w, trace := trace st @ [(OsMakedirs example_dir, None)]\<rparr>"
  show eq: "acquisition l st = download_and_extract l ?st1"
    using a p by (rule acquisition_absent(2))
  from download_and_extract_trace [of l ?st1]
  show "\<exists>r rest. trace (fst (acquisition l st))
      = trace st @ (OsMakedirs example_dir, None)
          # (UrlRetrieve mobilenet_ssd_url mobilenet_ssd_fpath, r) # rest"
    unfolding eq by auto
next
  assume a: "os_path_exists l example_dir (world st)"
  show eq: "acquisition l st = download_and_extract l st"
    using a by (rule acquisition_present)
  show "\<exists>r rest. trace (fst (acquisition l st))
      = trace st @ (UrlRetrieve mobilenet_ssd_url mobilenet_ssd_fpath, r) # rest
      \<and> (\<forall>x\<in>set rest. \<forall>p. fst x \<noteq> OsMakedirs p)"
    unfolding eq by (rule download_and_extract_trace)
qed

theorem acquisition_creates_directory_iff_absent_witness:
  "acquisition (example_lib (\<lambda>s. None)) (initial_state [])
     = ((initial_state [])
          \<lparr>world := [example_dir],
           trace := [(OsMakedirs example_dir, None),
                     (UrlRetrieve mobilenet_ssd_url mobilenet_ssd_fpath, None),
                     (ZipFileOpen mobilenet_ssd_fpath, None),
                     (ZipExtractAll example_dir, None),
                     (ZipClose, None)]\<rparr>, None)
   \<and> acquisition (example_lib (\<lambda>s. None)) (initial_state [example_dir])
     = ((initial_state [example_dir])
          \<lparr>trace := [(UrlRetrieve mobilenet_ssd_url mobilenet_ssd_fpath, None),
                     (ZipFileOpen mobilenet_ssd_fpath, None),
                     (ZipExtractAll example_dir, None),
                     (ZipClose, None)]\<rparr>, None)"
  using acquisition_creates_directory_iff_absent [of "example_lib (\<lambda>s. None)" "initial_state []"]
    acquisition_creates_directory_iff_absent [of "example_lib (\<lambda>s. None)" "initial_state [example_dir]"]
  by (simp add: example_lib_def initial_state_def download_and_extract_def invoke_def)

subsection \<open>The cells run the statements of the notebook, uncaught\<close>























section \<open>Properties of graph pruning\<close>

lemma set_expand: "set (expand g S) = set S \<union> (\<Union>n \<in> active g S. set (inputs n))"
  by (auto simp: expand_def active_def)

lemma rounds_mono_step: "set (rounds k g S) \<subseteq> set (rounds (Suc k) g S)"
  by (simp add: set_expand)

lemma rounds_mono: "k \<le> j \<Longrightarrow> set (rounds k g S) \<subseteq> set (rounds j g S)"
proof (induction j)
  case 0
  then show ?case by simp
next
  case (Suc j)
  show ?case
  proof (cases "k = Suc j")
    case True
    then show ?thesis by simp
  next
    case False
    then have "k \<le> j" using Suc.prems by simp
    then have "set (rounds k g S) \<subseteq> set (rounds j g S)" by (rule Suc.IH)
    also have "\<dots> \<subseteq> set (rounds (Suc j) g S)" by (rule rounds_mono_step)
    finally show ?thesis .
  qed
qed

lemma active_mono: "set S \<subseteq> set T \<Longrightarrow> active g S \<subseteq> active g T"
  by (auto simp: active_def)

lemma active_cong: "set S = set T \<Longrightarrow> active g S = active g T"
  by (simp add: active_def)

lemma expand_cong: "set S = set T \<Longrightarrow> set (expand g S) = set (expand g T)"
  by (simp add: set_expand active_cong [of S T])

lemma rounds_Suc_conv:
  "set (rounds (Suc k) g S) = set S \<union> (\<Union>n \<in> active g (rounds k g S). set (inputs n))"
proof (induction k)
  case 0
  show ?case by (simp add: set_expand)
next
  case (Suc k)
  have sub: "active g (rounds k g S) \<subseteq> active g (rounds (Suc k) g S)"
    by (intro active_mono rounds_mono_step)
  have "set (rounds (Suc (Suc k)) g S)
      = set (rounds (Suc k) g S) \<union> (\<Union>n \<in> active g (rounds (Suc k) g S). set (inputs n))"
    by (simp add: set_expand)
  also have "\<dots> = set S \<union> (\<Union>n \<in> active g (rounds k g S). set (inputs n))
      \<union> (\<Union>n \<in> active g (rounds (Suc k) g S). set (inputs n))"
    by (simp only: Suc.IH)
  also have "\<dots> = set S \<union> (\<Union>n \<in> active g (rounds (Suc k) g S). set (inputs n))"
    using sub by blast
  finally show ?case .
qed

lemma rounds_stable_step:
  assumes "active g (rounds k g S) = active g (rounds (Suc k) g S)"
  shows "set (rounds (Suc (Suc k)) g S) = set (rounds (Suc k) g S)"
  by (simp only: rounds_Suc_conv [of "Suc k"] rounds_Suc_conv [of k] assms)

lemma rounds_stable:
  assumes "set (rounds (Suc k) g S) = set (rounds k g S)"
  shows "k \<le> j \<Longrightarrow> set (rounds j g S) = set (rounds k g S)"
proof (induction j)
  case 0
  then show ?case by simp
next
  case (Suc j)
  show ?case
  proof (cases "k = Suc j")
    case True
    then show ?thesis by simp
  next
    case False
    then have "set (rounds j g S) = set (rounds k g S)" using Suc by simp
    then have "set (expand g (rounds j g S)) = set (expand g (rounds k g S))"
      by (rule expand_cong)
    then show ?thesis using assms by simp
  qed
qed

lemma active_card_grows:
  assumes "\<forall>k<m. active g (rounds k g S) \<noteq> active g (rounds (Suc k) g S)"
  shows "m \<le> card (active g (rounds m g S))"
  using assms
proof (induction m)
  case 0
  then show ?case by simp
next
  case (Suc m)
  have fin: "finite (active g (rounds (Suc m) g S))"
    by (simp add: active_def)
  have "active g (rounds m g S) \<subset> active g (rounds (Suc m) g S)"
    using Suc.prems active_mono [OF rounds_mono_step [of m g S]] by blast
  then have "card (active g (rounds m g S)) < card (active g (rounds (Suc m) g S))"
    using fin by (intro psubset_card_mono)
  moreover have "m \<le> card (active g (rounds m g S))"
    using Suc by simp
  ultimately show ?case by simp
qed

lemma active_stabilises:
  "\<exists>k \<le> length g. active g (rounds k g S) = active g (rounds (Suc k) g S)"
proof (rule ccontr)
  assume "\<not> ?thesis"
  then have "\<forall>k<Suc (length g). active g (rounds k g S) \<noteq> active g (rounds (Suc k) g S)"
    by (simp add: less_Suc_eq_le)
  then have "Suc (length g) \<le> card (active g (rounds (Suc (length g)) g S))"
    by (rule active_card_grows)
  moreover have "card (active g (rounds (Suc (length g)) g S)) \<le> card (set g)"
    by (intro card_mono) (auto simp: active_def)
  moreover have "card (set g) \<le> length g"
    by (rule card_length)
  ultimately show False by simp
qed

lemma reachable_closed: "set (expand g (reachable g S)) = set (reachable g S)"
proof -
  obtain k where k: "k \<le> length g"
    and st: "active g (rounds k g S) = active g (rounds (Suc k) g S)"
    using active_stabilises by blast
  have fixp: "set (rounds (Suc (Suc k)) g S) = set (rounds (Suc k) g S)"
    using st by (rule rounds_stable_step)
  have a: "set (rounds (Suc (length g)) g S) = set (rounds (Suc k) g S)"
    using k by (intro rounds_stable [OF fixp]) simp
  have b: "set (rounds (Suc (Suc (length g))) g S) = set (rounds (Suc k) g S)"
    using k by (intro rounds_stable [OF fixp]) simp
  show ?thesis
    using a b by (simp add: reachable_def)
qed

lemma rounds_sound: "set (rounds k g S) \<subseteq> backward_reachable g S"
proof (induction k)
  case 0
  show ?case by (auto simp: backward_reachable_def)
next
  case (Suc k)
  have "y \<in> backward_reachable g S"
    if "n \<in> active g (rounds k g S)" "y \<in> set (inputs n)" for n y
  proof -
    have "name n \<in> backward_reachable g S" "(name n, y) \<in> input_edges g"
      using that Suc.IH by (auto simp: active_def input_edges_def)
    then show ?thesis
      unfolding backward_reachable_def by (meson Image_iff rtrancl.rtrancl_into_rtrancl)
  qed
  then show ?case
    using Suc.IH by (auto simp: set_expand)
qed

lemma reachable_complete: "backward_reachable g S \<subseteq> set (reachable g S)"
proof
  fix y assume "y \<in> backward_reachable g S"
  then obtain x where x: "x \<in> set S" and path: "(x, y) \<in> (input_edges g)\<^sup>*"
    by (auto simp: backward_reachable_def)
  have start: "x \<in> set (reachable g S)"
    using x rounds_mono [of 0 "Suc (length g)" g S] by (auto simp: reachable_def)
  from path show "y \<in> set (reachable g S)"
  proof (induction rule: rtrancl_induct)
    case base
    show ?case by (rule start)
  next
    case (step y z)
    then obtain n where "n \<in> set g" "name n = y" "z \<in> set (inputs n)"
      by (auto simp: input_edges_def)
    then have "z \<in> set (expand g (reachable g S))"
      using step.IH by (auto simp: set_expand active_def)
    then show ?case by (simp add: reachable_closed)
  qed
qed

lemma reachable_correct: "set (reachable g S) = backward_reachable g S"
  using rounds_sound [of "Suc (length g)" g S] reachable_complete [of g S]
  by (auto simp: reachable_def)

lemma replace_inputs_idem:
  assumes "set h \<subseteq> set (replace_inputs g ins t)"
  shows "replace_inputs h ins t = h"
proof -
  have "(if name n \<in> set ins then placeholder (name n) t else n) = n" if "n \<in> set h" for n
  proof -
    from that assms obtain m where "m \<in> set g"
      and n: "n = (if name m \<in> set ins then placeholder (name m) t else m)"
      by (auto simp: replace_inputs_def)
    then show ?thesis
      by (cases "name m \<in> set ins") (simp_all add: placeholder_def)
  qed
  then show ?thesis
    unfolding replace_inputs_def by (intro map_idI)
qed

lemma backward_reachable_restrict:
  assumes h: "h = filter (\<lambda>n. name n \<in> backward_reachable g outs) g"
  shows "backward_reachable g outs \<subseteq> backward_reachable h outs"
proof
  fix y assume "y \<in> backward_reachable g outs"
  then obtain x where x: "x \<in> set outs" and path: "(x, y) \<in> (input_edges g)\<^sup>*"
    by (auto simp: backward_reachable_def)
  from path have "(x, y) \<in> (input_edges h)\<^sup>*"
  proof (induction rule: rtrancl_induct)
    case base
    show ?case by simp
  next
    case (step y z)
    from step.hyps(2) obtain n where n: "n \<in> set g" "name n = y" "z \<in> set (inputs n)"
      by (auto simp: input_edges_def)
    have "y \<in> backward_reachable g outs"
      using x step.hyps(1) by (auto simp: backward_reachable_def)
    then have "n \<in> set h"
      using n by (simp add: h)
    then have "(y, z) \<in> input_edges h"
      using n by (auto simp: input_edges_def)
    with step.IH show ?case by simp
  qed
  then show "y \<in> backward_reachable h outs"
    using x by (auto simp: backward_reachable_def)
qed

lemma strip_unused_conv:
  "strip_unused g ins outs t
     = filter (\<lambda>n. name n \<in> backward_reachable (replace_inputs g ins t) outs)
         (replace_inputs g ins t)"
  by (simp add: strip_unused_def Let_def reachable_correct)

lemma strip_unused_idem:
  "strip_unused (strip_unused g ins outs t) ins outs t = strip_unused g ins outs t"
proof -
  let ?g1 = "replace_inputs g ins t"
  let ?h = "strip_unused g ins outs t"
  have h: "?h = filter (\<lambda>n. name n \<in> backward_reachable ?g1 outs) ?g1"
    by (rule strip_unused_conv)
  have "set ?h \<subseteq> set ?g1"
    by (auto simp: h)
  then have rep: "replace_inputs ?h ins t = ?h"
    by (rule replace_inputs_idem)
  have "name n \<in> backward_reachable ?h outs" if "n \<in> set ?h" for n
  proof -
    have "name n \<in> backward_reachable ?g1 outs"
      using that by (simp add: h)
    then show ?thesis
      using backward_reachable_restrict [OF h] by blast
  qed
  then have "filter (\<lambda>n. name n \<in> backward_reachable ?h outs) ?h = ?h"
    by (intro filter_True) simp
  then show ?thesis
    by (simp only: strip_unused_conv [of ?h] rep)
qed

text \<open>
  Claim C6. Pruning is idempotent: pruning the pruned graph again with the same input and
  output node names gives the same graph, node for node, hence the same node set.
\<close>

theorem strip_unused_idempotent:
  "strip_unused (strip_unused g ins outs t) ins outs t = strip_unused g ins outs t
   \<and> set (strip_unused (strip_unused g ins outs t) ins outs t) = set (strip_unused g ins outs t)"
  by (simp add: strip_unused_idem)

text \<open>
  The specification's scenario: the input (with a node before it), a constant, their
  sum, the output that renames the sum, and a node that nothing needs.
\<close>

theorem strip_unused_idempotent_witness:
  "strip_unused
     (strip_unused
        [\<lparr>name = ''input'', op = ''Sub'', inputs = [''pre''], dtype = None\<rparr>,
         \<lparr>name = ''pre'', op = ''Cast'', inputs = [], dtype = None\<rparr>,
         \<lparr>name = ''const'', op = ''Const'', inputs = [], dtype = Some 1\<rparr>,
         \<lparr>name = ''add'', op = ''Add'', inputs = [''input'', ''const''], dtype = None\<rparr>,
         \<lparr>name = ''identity'', op = ''Identity'', inputs = [''add''], dtype = None\<rparr>,
         \<lparr>name = ''unused'', op = ''Identity'', inputs = [''add''], dtype = None\<rparr>]
        [''input''] [''identity''] 1)
     [''input''] [''identity''] 1
   = [\<lparr>name = ''input'', op = ''Placeholder'', inputs = [], dtype = Some 1\<rparr>,
      \<lparr>name = ''const'', op = ''Const'', inputs = [], dtype = Some 1\<rparr>,
      \<lparr>name = ''add'', op = ''Add'', inputs = [''input'', ''const''], dtype = None\<rparr>,
      \<lparr>name = ''identity'', op = ''Identity'', inputs = [''add''], dtype = None\<rparr>]"
proof -
  have "strip_unused
     [\<lparr>name = ''input'', op = ''Sub'', inputs = [''pre''], dtype = None\<rparr>,
      \<lparr>name = ''pre'', op = ''Cast'', inputs = [], dtype = None\<rparr>,
      \<lparr>name = ''const'', op = ''Const'', inputs = [], dtype = Some 1\<rparr>,
      \<lparr>name = ''add'', op = ''Add'', inputs = [''input'', ''const''], dtype = None\<rparr>,
      \<lparr>name = ''identity'', op = ''Identity'', inputs = [''add''], dtype = None\<rparr>,
      \<lparr>name = ''unused'', op = ''Identity'', inputs = [''add''], dtype = None\<rparr>]
     [''input''] [''identity''] 1
   = [\<lparr>name = ''input'', op = ''Placeholder'', inputs = [], dtype = Some 1\<rparr>,
      \<lparr>name = ''const'', op = ''Const'', inputs = [], dtype = Some 1\<rparr>,
      \<lparr>name = ''add'', op = ''Add'', inputs = [''input'', ''const''], dtype = None\<rparr>,
      \<lparr>name = ''identity'', op = ''Identity'', inputs = [''add''], dtype = None\<rparr>]"
    by code_simp
  with strip_unused_idempotent
    [of "[\<lparr>name = ''input'', op = ''Sub'', inputs = [''pre''], dtype = None\<rparr>,
      \<lparr>name = ''pre'', op = ''Cast'', inputs = [], dtype = None\<rparr>,
      \<lparr>name = ''const'', op = ''Const'', inputs = [], dtype = Some 1\<rparr>,
      \<lparr>name = ''add'', op = ''Add'', inputs = [''input'', ''const''], dtype = None\<rparr>,
      \<lparr>name = ''identity'', op = ''Identity'', inputs = [''add''], dtype = None\<rparr>,
      \<lparr>name = ''unused'', op = ''Identity'', inputs = [''add''], dtype = None\<rparr>]"
      "[''input'']" "[''identity'']" 1]
  show ?thesis
    by simp
qed

end
